theory Spec2Isabelle
  imports Main "HOL-Library.Word" "HOL-Library.List_Lexorder" "HOL-Library.Multiset"
begin

unbundle bit_operations_syntax

section \<open>Bytes, strings and their comparisons\<close>

text \<open>
  A \<open>std::string\<close> is a list of bytes; it may hold zero bytes. A \<open>char\<close> is read
  as its byte value (0..255), so the index \<open>hash ^ data[i]\<close> of the hash stays inside
  the 256-entry table. Sizes (\<open>size_t\<close>, \<open>uint32_t\<close>) are natural numbers: key and
  value sizes are taken to be below \<open>2^32\<close>, where \<open>uint32_t\<close> does not wrap.
\<close>

type_synonym byte = "8 word"
type_synonym bytes = "byte list"

text \<open>\<open>s.c_str()\<close> read as a C string: the bytes before the first zero byte.\<close>

definition c_str :: "bytes \<Rightarrow> bytes" where
  "c_str s = takeWhile (\<lambda>b. b \<noteq> 0) s"

text \<open>
  \<open>strcmp(a.c_str(), b.c_str())\<close>: both strings are walked until they differ or a
  terminator is met; the end of the list is the terminating zero byte. Only the sign of
  the result is used by the engine, so the model returns \<open>-1\<close>, \<open>0\<close> or \<open>1\<close>.
\<close>

fun strcmp :: "bytes \<Rightarrow> bytes \<Rightarrow> int" where
  "strcmp [] [] = 0"
| "strcmp [] (b # bs) = (if b = 0 then 0 else - 1)"
| "strcmp (a # as) [] = (if a = 0 then 0 else 1)"
| "strcmp (a # as) (b # bs) =
     (if a \<noteq> b then (if a < b then - 1 else 1)
      else if a = 0 then 0
      else strcmp as bs)"

text \<open>\<open>a.compare(b)\<close> of \<open>std::string\<close>: all bytes count, then the lengths.\<close>

fun string_compare :: "bytes \<Rightarrow> bytes \<Rightarrow> int" where
  "string_compare [] [] = 0"
| "string_compare [] (b # bs) = - 1"
| "string_compare (a # as) [] = 1"
| "string_compare (a # as) (b # bs) =
     (if a \<noteq> b then (if a < b then - 1 else 1) else string_compare as bs)"

text \<open>
  \<open>std::sort\<close> and \<open>std::list::sort\<close> with the comparator
  \<open>strcmp(lhs, rhs) < 0\<close> on a key of the elements: an insertion sort that keeps
  elements with equal keys in their order.
\<close>

fun insert_by_strcmp :: "('a \<Rightarrow> bytes) \<Rightarrow> 'a \<Rightarrow> 'a list \<Rightarrow> 'a list" where
  "insert_by_strcmp f x [] = [x]"
| "insert_by_strcmp f x (y # ys) =
     (if strcmp (f x) (f y) \<le> 0 then x # y # ys else y # insert_by_strcmp f x ys)"

definition sort_by_strcmp :: "('a \<Rightarrow> bytes) \<Rightarrow> 'a list \<Rightarrow> 'a list" where
  "sort_by_strcmp f xs = foldr (insert_by_strcmp f) xs []"

section \<open>The Pearson hash\<close>

text \<open>The lookup table of RFC 3074, as \<open>PEARSON_LOOKUP_TABLE\<close> lists it.\<close>

definition PEARSON_LOOKUP_TABLE :: "byte list" where
  "PEARSON_LOOKUP_TABLE = [
        251, 175, 119, 215, 81, 14, 79, 191, 103, 49, 181, 143, 186, 157, 0,
        232, 31, 32, 55, 60, 152, 58, 17, 237, 174, 70, 160, 144, 220, 90, 57,
        223, 59, 3, 18, 140, 111, 166, 203, 196, 134, 243, 124, 95, 222, 179,
        197, 65, 180, 48, 36, 15, 107, 46, 233, 130, 165, 30, 123, 161, 209, 23,
        97, 16, 40, 91, 219, 61, 100, 10, 210, 109, 250, 127, 22, 138, 29, 108,
        244, 67, 207, 9, 178, 204, 74, 98, 126, 249, 167, 116, 34, 77, 193,
        200, 121, 5, 20, 113, 71, 35, 128, 13, 182, 94, 25, 226, 227, 199, 75,
        27, 41, 245, 230, 224, 43, 225, 177, 26, 155, 150, 212, 142, 218, 115,
        241, 73, 88, 105, 39, 114, 62, 255, 192, 201, 145, 214, 168, 158, 221,
        148, 154, 122, 12, 84, 82, 163, 44, 139, 228, 236, 205, 242, 217, 11,
        187, 146, 159, 64, 86, 239, 195, 42, 106, 198, 118, 112, 184, 172, 87,
        2, 173, 117, 176, 229, 247, 253, 137, 185, 99, 164, 102, 147, 45, 66,
        231, 52, 141, 211, 194, 206, 246, 238, 56, 110, 78, 248, 63, 240, 189,
        93, 92, 51, 53, 183, 19, 171, 72, 50, 33, 104, 101, 69, 8, 252, 83, 120,
        76, 135, 85, 54, 202, 125, 188, 213, 96, 235, 136, 208, 162, 129, 190,
        132, 156, 38, 47, 1, 7, 254, 24, 4, 216, 131, 89, 21, 28, 133, 37, 153,
        149, 80, 170, 68, 6, 169, 234, 151]"

text \<open>
  The loop \<open>for (size_t i = size; i > 0;) hash = TABLE[hash ^ data[--i]]\<close>: the
  counter is \<open>i\<close>, the byte read is \<open>data[i - 1]\<close>.
\<close>

fun pearson_loop :: "bytes \<Rightarrow> nat \<Rightarrow> byte \<Rightarrow> byte" where
  "pearson_loop data 0 hash = hash"
| "pearson_loop data (Suc i) hash =
     pearson_loop data i (PEARSON_LOOKUP_TABLE ! unat (hash XOR data ! i))"

definition PearsonHash :: "bytes \<Rightarrow> byte" where
  "PearsonHash data =
     (let hash = pearson_loop data (length data) (of_nat (length data))
      in if hash = 0 then 1 else hash)"



section \<open>The data model\<close>

text \<open>
  Modelled from the spec: the constants of \<open>pmemkv.h\<close>, which is not among the
  sources. The specification gives the fan-outs (48 slots in a leaf, 4 keys in an
  inner node); the midpoints are the halves, and the upper half of an inner node
  starts one past its midpoint.
\<close>

definition LEAF_KEYS :: nat where
  "LEAF_KEYS = 48"

definition LEAF_KEYS_MIDPOINT :: nat where
  "LEAF_KEYS_MIDPOINT = LEAF_KEYS div 2"

definition INNER_KEYS :: nat where
  "INNER_KEYS = 4"

definition INNER_KEYS_MIDPOINT :: nat where
  "INNER_KEYS_MIDPOINT = INNER_KEYS div 2"

definition INNER_KEYS_UPPER :: nat where
  "INNER_KEYS_UPPER = INNER_KEYS div 2 + 1"

text \<open>The statuses the engine of \<open>pmemkv.cc\<close> returns.\<close>

datatype KVStatus = OK | NOT_FOUND | FAILED

text \<open>
  A persistent slot: the hash \<open>ph\<close>, the sizes \<open>ks\<close> and \<open>vs\<close>, and the buffer
  \<open>kv\<close> (\<open>None\<close> is the null pointer). The buffer of a filled slot is the key, a
  zero byte, the value, a zero byte.
\<close>

record KVSlot =
  ph :: byte
  ks :: nat
  vs :: nat
  kv :: "bytes option"

definition empty_slot :: KVSlot where
  "empty_slot = \<lparr>ph = 0, ks = 0, vs = 0, kv = None\<rparr>"

text \<open>\<open>KVSlot::clear\<close>: the buffer is freed and the four fields are zeroed.\<close>

definition KVSlot_clear :: "KVSlot \<Rightarrow> KVSlot" where
  "KVSlot_clear s = s\<lparr>ph := 0, ks := 0, vs := 0, kv := None\<rparr>"

text \<open>
  \<open>KVSlot::set\<close>, where its allocation succeeds: the old buffer is freed, the new one
  has \<open>ks + vs + 2\<close> zeroed bytes, the key is copied to its start and the value behind
  the key and one separator.
\<close>

definition KVSlot_set :: "byte \<Rightarrow> bytes \<Rightarrow> bytes \<Rightarrow> KVSlot \<Rightarrow> KVSlot" where
  "KVSlot_set hash key val s =
     s\<lparr>ph := hash, ks := length key, vs := length val,
       kv := Some (key @ [0] @ val @ [0])\<rparr>"

text \<open>
  Modelled from the spec: the accessors of \<open>KVSlot\<close> declared in \<open>pmemkv.h\<close>.
  \<open>key()\<close> points to the start of the buffer and \<open>val()\<close> to \<open>ks + 1\<close> bytes
  behind it; the model gives the bytes from there to the end of the buffer, and
  \<open>None\<close> for a null buffer. \<open>swap\<close> exchanges two slots.
\<close>

definition KVSlot_key :: "KVSlot \<Rightarrow> bytes option" where
  "KVSlot_key s = kv s"

definition KVSlot_val :: "KVSlot \<Rightarrow> bytes option" where
  "KVSlot_val s = map_option (drop (ks s + 1)) (kv s)"

text \<open>A persistent leaf: its \<open>LEAF_KEYS\<close> slots.\<close>

record KVLeaf =
  slots :: "KVSlot list"

definition empty_leaf :: KVLeaf where
  "empty_leaf = \<lparr>slots = replicate LEAF_KEYS empty_slot\<rparr>"

text \<open>
  The persistent pool is the list of the leaves ever allocated. A persistent pointer to
  a leaf is its index in this list. Leaves are only ever linked in front of
  \<open>root.head\<close> and never unlinked, so the chain \<open>head, head.next, ...\<close> is this
  list read from its last element to its first: the head is the last element and the
  \<open>next\<close> of the leaf at index \<open>i + 1\<close> is the leaf at index \<open>i\<close>.
\<close>

type_synonym pool = "KVLeaf list"

text \<open>
  The volatile nodes. A leaf descriptor mirrors the hashes and keys of its persistent
  leaf \<open>leaf\<close>. An inner node has \<open>keycount = length keys\<close> keys and
  \<open>keycount + 1\<close> children; array entries behind them are never read. The
  \<open>parent\<close> of a node is not a field of the model: a node is reached from the top,
  and its ancestors are the frames passed on the way (see \<open>LeafSearch\<close>).
\<close>

record KVLeafNode =
  hashes :: "byte list"
  keys :: "bytes list"
  leaf :: nat

datatype KVNode = Leaf KVLeafNode | Inner "bytes list" "KVNode list"

text \<open>\<open>new KVLeafNode()\<close>: zero hashes, empty keys.\<close>

definition new_KVLeafNode :: KVLeafNode where
  "new_KVLeafNode =
     \<lparr>hashes = replicate LEAF_KEYS 0, keys = replicate LEAF_KEYS [], leaf = 0\<rparr>"

text \<open>The engine: the pool, the top of the volatile tree and the free leaves.\<close>

record KVTree =
  pmpool :: pool
  tree_top :: "KVNode option"
  leaves_prealloc :: "nat list"

text \<open>
  What may go wrong in the one transaction an operation runs: the allocation of a leaf
  or of a slot's buffer throws \<open>transaction_alloc_error\<close>, or the transaction throws
  \<open>transaction_error\<close> when it commits. The caller of an operation names the fault
  to inject; \<open>None\<close> is a transaction in which nothing fails. A transaction that
  throws restores the pool; what its body did to volatile memory stays.
\<close>

datatype fault = leaf_alloc_fails | buffer_alloc_fails | commit_fails

datatype exn = transaction_alloc_error | transaction_error

section \<open>Searching\<close>

text \<open>
  A frame is an inner node on the way down from the top: its keys, its children and
  the index of the child taken. The frames from a node up to the top stand for the
  chain of \<open>parent\<close> pointers of that node.
\<close>

type_synonym frame = "bytes list \<times> KVNode list \<times> nat"

text \<open>
  The scan of one inner node in \<open>LeafSearch\<close>: the first index whose key is not
  below the searched key under \<open>strcmp\<close>, and \<open>keycount\<close> where there is none.
\<close>

fun child_index :: "bytes \<Rightarrow> bytes list \<Rightarrow> nat" where
  "child_index key [] = 0"
| "child_index key (k # rest) =
     (if strcmp key k \<le> 0 then 0 else Suc (child_index key rest))"

text \<open>
  The descent of \<open>LeafSearch\<close> from a node. An inner node that lacks the child to
  take (it does not arise: see \<open>shape\<close> below) gives \<open>None\<close>.
\<close>

function descend :: "bytes \<Rightarrow> KVNode \<Rightarrow> frame list \<Rightarrow> (frame list \<times> KVLeafNode) option" where
  "descend key (Leaf ln) path = Some (path, ln)"
| "descend key (Inner seps cs) path =
     (let idx = child_index key seps
      in if idx < length cs then descend key (cs ! idx) ((seps, cs, idx) # path) else None)"
  by pat_completeness auto
termination
proof (relation "measure (\<lambda>(key, node, path). size node)", goal_cases)
  case 1
  show ?case by simp
next
  case (2 key seps cs path idx)
  then have "cs ! idx \<in> set cs" by simp
  then have "size (cs ! idx) < Suc (size_list size cs)"
    by (metis less_Suc_eq_le size_list_estimation' order_refl)
  then show ?case by simp
qed

definition LeafSearch :: "bytes \<Rightarrow> KVTree \<Rightarrow> (frame list \<times> KVLeafNode) option" where
  "LeafSearch key st =
     (case tree_top st of None \<Rightarrow> None | Some node \<Rightarrow> descend key node [])"

text \<open>
  The tree with a node put back under its ancestors: the node replaces the child each
  frame had taken.
\<close>

fun plug :: "KVNode \<Rightarrow> frame list \<Rightarrow> KVNode" where
  "plug node [] = node"
| "plug node ((seps, cs, idx) # up) = plug (Inner seps (cs[idx := node])) up"

text \<open>
  The scan \<open>for (int slot = LEAF_KEYS; slot--;)\<close> of \<open>Get\<close> and \<open>Remove\<close>: the
  first slot, from the highest index down, whose mirrored hash is the hash of the key
  and whose mirrored key is equal to the key under \<open>strcmp\<close>.
\<close>

fun find_slot :: "nat \<Rightarrow> KVLeafNode \<Rightarrow> byte \<Rightarrow> bytes \<Rightarrow> nat option" where
  "find_slot 0 ln hash key = None"
| "find_slot (Suc slot) ln hash key =
     (if hashes ln ! slot = hash \<and> strcmp (keys ln ! slot) key = 0 then Some slot
      else find_slot slot ln hash key)"

text \<open>\<open>leafnode->leaf->slots[slot].get_ro()\<close>; \<open>None\<close> for a pointer outside the pool.\<close>

definition get_ro :: "pool \<Rightarrow> nat \<Rightarrow> nat \<Rightarrow> KVSlot option" where
  "get_ro pool lf slot =
     (if lf < length pool \<and> slot < length (slots (pool ! lf))
      then Some (slots (pool ! lf) ! slot) else None)"

text \<open>
  \<open>Get(key, value)\<close>: the second argument is what the string \<open>*value\<close> holds before
  the call. \<open>value->append(kv.val())\<close> appends the C string at \<open>val()\<close>. The result
  is \<open>None\<close> where the call reads through a null buffer.
\<close>

definition Get :: "bytes \<Rightarrow> bytes \<Rightarrow> KVTree \<Rightarrow> (KVStatus \<times> bytes) option" where
  "Get key val st =
     (case LeafSearch key st of
        None \<Rightarrow> Some (NOT_FOUND, val)
      | Some (path, leafnode) \<Rightarrow>
          (case find_slot LEAF_KEYS leafnode (PearsonHash key) key of
             None \<Rightarrow> Some (NOT_FOUND, val)
           | Some slot \<Rightarrow>
               (case Option.bind (get_ro (pmpool st) (leaf leafnode) slot) KVSlot_val of
                  None \<Rightarrow> None
                | Some p \<Rightarrow> Some (OK, val @ c_str p))))"

text \<open>
  \<open>Get(key, limit, value, valuebytes)\<close>: \<open>limit\<close> is a \<open>size_t\<close> of 64 bits, and
  \<open>limit - 1\<close> wraps at 0. On \<open>OK\<close> the result carries the \<open>vs\<close> bytes copied to
  \<open>value\<close> (\<open>*valuebytes\<close> is their number); otherwise nothing is written.
\<close>

definition Get_limit :: "bytes \<Rightarrow> 64 word \<Rightarrow> KVTree \<Rightarrow> (KVStatus \<times> bytes option) option" where
  "Get_limit key limit st =
     (case LeafSearch key st of
        None \<Rightarrow> Some (NOT_FOUND, None)
      | Some (path, leafnode) \<Rightarrow>
          (case find_slot LEAF_KEYS leafnode (PearsonHash key) key of
             None \<Rightarrow> Some (NOT_FOUND, None)
           | Some slot \<Rightarrow>
               (case get_ro (pmpool st) (leaf leafnode) slot of
                  None \<Rightarrow> None
                | Some s \<Rightarrow>
                    if vs s < unat (limit - 1)
                    then map_option (\<lambda>p. (OK, Some (take (vs s) p))) (KVSlot_val s)
                    else Some (FAILED, None))))"

section \<open>Writing\<close>

text \<open>\<open>leaf->slots[slot].get_rw()\<close> followed by a write: the slot of a leaf replaced.\<close>

definition put_slot :: "pool \<Rightarrow> nat \<Rightarrow> nat \<Rightarrow> KVSlot \<Rightarrow> pool" where
  "put_slot pool lf slot s = pool[lf := (pool ! lf)\<lparr>slots := (slots (pool ! lf))[slot := s]\<rparr>]"

text \<open>\<open>a->slots[slot].swap(b->slots[slot])\<close>.\<close>

definition swap_slots :: "pool \<Rightarrow> nat \<Rightarrow> nat \<Rightarrow> nat \<Rightarrow> pool" where
  "swap_slots pool a b slot =
     (let sa = slots (pool ! a) ! slot;
          sb = slots (pool ! b) ! slot
      in put_slot (put_slot pool a slot sb) b slot sa)"

text \<open>
  \<open>transaction::exec_tx\<close> around a body that answered an exception (or none), its
  volatile results and the pool it wrote: when the body threw, or when the commit fails,
  the pool is the one from before the transaction.
\<close>

definition exec_tx :: "fault option \<Rightarrow> pool \<Rightarrow> exn option \<times> 'v \<times> pool \<Rightarrow> exn option \<times> 'v \<times> pool" where
  "exec_tx f pool0 r =
     (case r of
        (Some e, v, pool) \<Rightarrow> (Some e, v, pool0)
      | (None, v, pool) \<Rightarrow>
          if f = Some commit_fails then (Some transaction_error, v, pool0)
          else (None, v, pool))"

text \<open>
  \<open>LeafFillSpecificSlot\<close>: the mirror is written first (where the slot was empty),
  then \<open>KVSlot::set\<close> runs, whose allocation may throw.
\<close>

definition LeafFillSpecificSlot ::
  "fault option \<Rightarrow> KVLeafNode \<Rightarrow> byte \<Rightarrow> bytes \<Rightarrow> bytes \<Rightarrow> nat \<Rightarrow> pool \<Rightarrow> exn option \<times> KVLeafNode \<times> pool" where
  "LeafFillSpecificSlot f leafnode hash key val slot pool =
     (let leafnode' =
            (if hashes leafnode ! slot = 0
             then leafnode\<lparr>hashes := (hashes leafnode)[slot := hash],
                           keys := (keys leafnode)[slot := key]\<rparr>
             else leafnode)
      in if f = Some buffer_alloc_fails then (Some transaction_alloc_error, leafnode', pool)
         else (None, leafnode',
               put_slot pool (leaf leafnode') slot
                 (KVSlot_set hash key val (slots (pool ! leaf leafnode') ! slot))))"

text \<open>The scan of \<open>LeafFillEmptySlot\<close>: the empty slot of the highest index.\<close>

fun first_empty :: "nat \<Rightarrow> KVLeafNode \<Rightarrow> nat option" where
  "first_empty 0 ln = None"
| "first_empty (Suc slot) ln =
     (if hashes ln ! slot = 0 then Some slot else first_empty slot ln)"

definition LeafFillEmptySlot ::
  "fault option \<Rightarrow> KVLeafNode \<Rightarrow> byte \<Rightarrow> bytes \<Rightarrow> bytes \<Rightarrow> pool \<Rightarrow> exn option \<times> KVLeafNode \<times> pool" where
  "LeafFillEmptySlot f leafnode hash key val pool =
     (case first_empty LEAF_KEYS leafnode of
        None \<Rightarrow> (None, leafnode, pool)
      | Some slot \<Rightarrow> LeafFillSpecificSlot f leafnode hash key val slot pool)"

text \<open>
  The scan of \<open>LeafFillSlotForKey\<close>, from the highest slot down: it answers
  \<open>last_empty_slot\<close> and \<open>key_match_slot\<close> (\<open>None\<close> for \<open>-1\<close>), and stops at the
  first slot that matches the key.
\<close>

fun scan_slots :: "nat \<Rightarrow> KVLeafNode \<Rightarrow> byte \<Rightarrow> bytes \<Rightarrow> nat option \<Rightarrow> nat option \<times> nat option" where
  "scan_slots 0 ln hash key last_empty_slot = (last_empty_slot, None)"
| "scan_slots (Suc slot) ln hash key last_empty_slot =
     (let slot_hash = hashes ln ! slot
      in if slot_hash = 0 then scan_slots slot ln hash key (Some slot)
         else if slot_hash = hash \<and> strcmp (keys ln ! slot) key = 0
         then (last_empty_slot, Some slot)
         else scan_slots slot ln hash key last_empty_slot)"

text \<open>
  \<open>LeafFillSlotForKey\<close>: the Boolean is its result (a suitable slot was found); the
  rest is what its transaction answered.
\<close>

definition LeafFillSlotForKey ::
  "fault option \<Rightarrow> KVLeafNode \<Rightarrow> byte \<Rightarrow> bytes \<Rightarrow> bytes \<Rightarrow> pool \<Rightarrow> bool \<times> exn option \<times> KVLeafNode \<times> pool" where
  "LeafFillSlotForKey f leafnode hash key val pool =
     (case scan_slots LEAF_KEYS leafnode hash key None of
        (last_empty_slot, key_match_slot) \<Rightarrow>
          (case (case key_match_slot of Some m \<Rightarrow> Some m | None \<Rightarrow> last_empty_slot) of
             None \<Rightarrow> (False, None, leafnode, pool)
           | Some slot \<Rightarrow>
               (True, exec_tx f pool (LeafFillSpecificSlot f leafnode hash key val slot pool))))"

text \<open>
  The new persistent leaf of \<open>Put\<close> and \<open>LeafSplitFull\<close>: the last free leaf where
  there is one, else a leaf allocated and linked in front of \<open>root.head\<close>. It answers
  the pointer, the pool and the free list.
\<close>

definition obtain_leaf :: "fault option \<Rightarrow> pool \<Rightarrow> nat list \<Rightarrow> exn option \<times> nat \<times> pool \<times> nat list" where
  "obtain_leaf f pool prealloc =
     (if prealloc \<noteq> [] then (None, last prealloc, pool, butlast prealloc)
      else if f = Some leaf_alloc_fails then (Some transaction_alloc_error, 0, pool, prealloc)
      else (None, length pool, pool @ [empty_leaf], prealloc))"

text \<open>
  \<open>InnerUpdateAfterSplit(node, new_node, split_key)\<close>. The frames are the ancestors of
  \<open>node\<close>, its parent first; \<open>node\<close> stands at the index its parent's frame names.
  The result is the new top of the tree.
\<close>

fun InnerUpdateAfterSplit :: "KVNode \<Rightarrow> KVNode \<Rightarrow> bytes \<Rightarrow> frame list \<Rightarrow> KVNode" where
  "InnerUpdateAfterSplit node new_node split_key [] = Inner [split_key] [node, new_node]"
| "InnerUpdateAfterSplit node new_node split_key ((seps, cs0, i) # up) =
     (let cs = cs0[i := node];
          keycount = length seps;
          idx = length (takeWhile (\<lambda>k. string_compare k split_key \<le> 0) seps);
          seps' = take idx seps @ [split_key] @ drop idx seps;
          cs' = take (idx + 1) cs @ [new_node] @ drop (idx + 1) cs
      in if keycount + 1 \<le> INNER_KEYS then plug (Inner seps' cs') up
         else
           let new_inner = Inner (take INNER_KEYS_MIDPOINT (drop INNER_KEYS_UPPER seps'))
                                 (take (INNER_KEYS_MIDPOINT + 1) (drop INNER_KEYS_UPPER cs'));
               new_split_key = seps' ! INNER_KEYS_MIDPOINT;
               inner = Inner (take INNER_KEYS_MIDPOINT seps') (take (INNER_KEYS_MIDPOINT + 1) cs')
           in InnerUpdateAfterSplit inner new_inner new_split_key up)"

text \<open>
  The loop of \<open>LeafSplitFull\<close> that moves the slots above the split key, from the
  highest slot down.
\<close>

fun move_slots :: "nat \<Rightarrow> bytes \<Rightarrow> KVLeafNode \<Rightarrow> KVLeafNode \<Rightarrow> pool \<Rightarrow> KVLeafNode \<times> KVLeafNode \<times> pool" where
  "move_slots 0 split_key leafnode new_leafnode pool = (leafnode, new_leafnode, pool)"
| "move_slots (Suc slot) split_key leafnode new_leafnode pool =
     (if strcmp (keys leafnode ! slot) split_key > 0
      then move_slots slot split_key
             (leafnode\<lparr>hashes := (hashes leafnode)[slot := 0],
                       keys := (keys leafnode)[slot := []]\<rparr>)
             (new_leafnode\<lparr>hashes := (hashes new_leafnode)[slot := hashes leafnode ! slot],
                           keys := (keys new_leafnode)[slot := keys leafnode ! slot]\<rparr>)
             (swap_slots pool (leaf new_leafnode) (leaf leafnode) slot)
      else move_slots slot split_key leafnode new_leafnode pool)"

text \<open>The split key of \<open>LeafSplitFull\<close>.\<close>

definition split_key_of :: "KVLeafNode \<Rightarrow> bytes \<Rightarrow> bytes" where
  "split_key_of leafnode key = sort_by_strcmp id (keys leafnode @ [key]) ! LEAF_KEYS_MIDPOINT"

text \<open>
  The body of the transaction of \<open>LeafSplitFull\<close> behind the new leaf: the moves,
  then the new record into the leaf the split key selects. It answers the exception,
  the two descriptors and the pool.
\<close>

definition split_body ::
  "fault option \<Rightarrow> bytes \<Rightarrow> KVLeafNode \<Rightarrow> KVLeafNode \<Rightarrow> byte \<Rightarrow> bytes \<Rightarrow> bytes \<Rightarrow> pool
     \<Rightarrow> exn option \<times> (KVLeafNode \<times> KVLeafNode) \<times> pool" where
  "split_body f split_key leafnode new_leafnode hash key val pool =
     (case move_slots LEAF_KEYS split_key leafnode new_leafnode pool of
        (ln, nln, pool1) \<Rightarrow>
          if strcmp key split_key > 0
          then (case LeafFillEmptySlot f nln hash key val pool1 of
                  (e, nln', pool2) \<Rightarrow> (e, (ln, nln'), pool2))
          else (case LeafFillEmptySlot f ln hash key val pool1 of
                  (e, ln', pool2) \<Rightarrow> (e, (ln', nln), pool2)))"

text \<open>
  \<open>LeafSplitFull\<close> on the leaf reached through \<open>path\<close>. Where the transaction
  throws, the new descriptor is deleted and the exception passes on: the parents are not
  updated, and what the body did to the old descriptor and to the free list stays.
\<close>

definition LeafSplitFull ::
  "fault option \<Rightarrow> frame list \<Rightarrow> KVLeafNode \<Rightarrow> byte \<Rightarrow> bytes \<Rightarrow> bytes \<Rightarrow> KVTree \<Rightarrow> exn option \<times> KVTree" where
  "LeafSplitFull f path leafnode hash key val st =
     (let split_key = split_key_of leafnode key
      in case obtain_leaf f (pmpool st) (leaves_prealloc st) of
           (Some e, _) \<Rightarrow> (Some e, st)
         | (None, new_leaf, pool1, prealloc1) \<Rightarrow>
             (case exec_tx f (pmpool st)
                     (split_body f split_key leafnode (new_KVLeafNode\<lparr>leaf := new_leaf\<rparr>)
                        hash key val pool1) of
                (Some e, (ln, nln), pool2) \<Rightarrow>
                  (Some e, st\<lparr>leaves_prealloc := prealloc1,
                              tree_top := Some (plug (Leaf ln) path)\<rparr>)
              | (None, (ln, nln), pool2) \<Rightarrow>
                  (None, st\<lparr>pmpool := pool2, leaves_prealloc := prealloc1,
                            tree_top := Some (InnerUpdateAfterSplit (Leaf ln) (Leaf nln)
                                                split_key path)\<rparr>)))"

text \<open>\<open>Put\<close>: both exceptions of the transaction are caught and answered \<open>FAILED\<close>.\<close>

definition Put :: "fault option \<Rightarrow> bytes \<Rightarrow> bytes \<Rightarrow> KVTree \<Rightarrow> KVStatus \<times> KVTree" where
  "Put f key val st =
     (let hash = PearsonHash key
      in case LeafSearch key st of
           None \<Rightarrow>
             (case obtain_leaf f (pmpool st) (leaves_prealloc st) of
                (Some e, _) \<Rightarrow> (FAILED, st)
              | (None, new_leaf, pool1, prealloc1) \<Rightarrow>
                  (case exec_tx f (pmpool st)
                          (LeafFillSpecificSlot f (new_KVLeafNode\<lparr>leaf := new_leaf\<rparr>)
                             hash key val 0 pool1) of
                     (Some e, leafnode, pool2) \<Rightarrow> (FAILED, st\<lparr>leaves_prealloc := prealloc1\<rparr>)
                   | (None, leafnode, pool2) \<Rightarrow>
                       (OK, st\<lparr>pmpool := pool2, leaves_prealloc := prealloc1,
                               tree_top := Some (Leaf leafnode)\<rparr>)))
         | Some (path, leafnode) \<Rightarrow>
             (case LeafFillSlotForKey f leafnode hash key val (pmpool st) of
                (True, Some e, ln, pool1) \<Rightarrow>
                  (FAILED, st\<lparr>tree_top := Some (plug (Leaf ln) path)\<rparr>)
              | (True, None, ln, pool1) \<Rightarrow>
                  (OK, st\<lparr>pmpool := pool1, tree_top := Some (plug (Leaf ln) path)\<rparr>)
              | (False, _) \<Rightarrow>
                  (case LeafSplitFull f path leafnode hash key val st of
                     (Some e, st') \<Rightarrow> (FAILED, st')
                   | (None, st') \<Rightarrow> (OK, st'))))"

text \<open>
  \<open>Remove\<close>: the mirror of the slot is cleared before the transaction that clears
  the slot; no exception is caught, so a failing transaction leaves \<open>Remove\<close> by its
  exception (\<open>Inl\<close>).
\<close>

definition Remove :: "fault option \<Rightarrow> bytes \<Rightarrow> KVTree \<Rightarrow> (exn + KVStatus) \<times> KVTree" where
  "Remove f key st =
     (case LeafSearch key st of
        None \<Rightarrow> (Inr OK, st)
      | Some (path, leafnode) \<Rightarrow>
          (case find_slot LEAF_KEYS leafnode (PearsonHash key) key of
             None \<Rightarrow> (Inr OK, st)
           | Some slot \<Rightarrow>
               (let ln = leafnode\<lparr>hashes := (hashes leafnode)[slot := 0],
                                   keys := (keys leafnode)[slot := []]\<rparr>;
                    st1 = st\<lparr>tree_top := Some (plug (Leaf ln) path)\<rparr>;
                    lf = leaf leafnode
                in case exec_tx f (pmpool st)
                          (None, (), put_slot (pmpool st) lf slot
                                       (KVSlot_clear (slots (pmpool st ! lf) ! slot))) of
                     (Some e, _, pool1) \<Rightarrow> (Inl e, st1)
                   | (None, _, pool1) \<Rightarrow> (Inr OK, st1\<lparr>pmpool := pool1\<rparr>))))"

section \<open>Recovery\<close>

text \<open>
  The leaf descriptors of a tree from left to right, each with its ancestors. The
  ancestors of a descriptor the code holds a pointer to are those of the descriptor
  with the same persistent leaf: no two descriptors of a tree share one.
\<close>

function leaf_paths :: "KVNode \<Rightarrow> frame list \<Rightarrow> (KVLeafNode \<times> frame list) list" where
  "leaf_paths (Leaf ln) path = [(ln, path)]"
| "leaf_paths (Inner seps cs) path =
     concat (map (\<lambda>i. leaf_paths (cs ! i) ((seps, cs, i) # path)) [0..<length cs])"
  by pat_completeness auto
termination
proof (relation "measure (\<lambda>(node, path). size node)", goal_cases)
  case 1
  show ?case by simp
next
  case (2 seps cs path i)
  then have "cs ! i \<in> set cs" by simp
  then have "size (cs ! i) < Suc (size_list size cs)"
    by (metis less_Suc_eq_le size_list_estimation' order_refl)
  then show ?case by simp
qed

definition parents_of :: "KVLeafNode \<Rightarrow> KVNode \<Rightarrow> frame list" where
  "parents_of leafnode node =
     (case find (\<lambda>(ln, path). leaf ln = leaf leafnode) (leaf_paths node []) of
        Some (ln, path) \<Rightarrow> path
      | None \<Rightarrow> [])"

text \<open>
  The C string a slot's \<open>key()\<close> points to. A slot with a nonzero hash has a buffer
  (\<open>set\<close> writes both in one transaction); the model reads a null buffer as the empty
  string.
\<close>

definition key_string :: "KVSlot \<Rightarrow> bytes" where
  "key_string s = (case KVSlot_key s of None \<Rightarrow> [] | Some buf \<Rightarrow> c_str buf)"

text \<open>
  The loop of \<open>Recover\<close> over the slots of one persistent leaf, from the highest slot
  down: it mirrors the hashes and the keys and finds the highest sorting key
  (\<open>None\<close> is the null \<open>max_key\<close>).
\<close>

fun recover_slots :: "nat \<Rightarrow> KVLeaf \<Rightarrow> KVLeafNode \<Rightarrow> bytes option \<Rightarrow> KVLeafNode \<times> bytes option" where
  "recover_slots 0 lf leafnode max_key = (leafnode, max_key)"
| "recover_slots (Suc slot) lf leafnode max_key =
     (let kvslot = slots lf ! slot;
          ln = leafnode\<lparr>hashes := (hashes leafnode)[slot := ph kvslot]\<rparr>
      in if hashes ln ! slot = 0 then recover_slots slot lf ln max_key
         else
           let key = key_string kvslot;
               max_key' = (case max_key of
                             None \<Rightarrow> Some key
                           | Some m \<Rightarrow> if strcmp m key < 0 then Some key else Some m)
           in recover_slots slot lf (ln\<lparr>keys := (keys ln)[slot := key]\<rparr>) max_key')"

text \<open>
  One round of the walk over the persistent leaves: an empty leaf goes to the free
  list, any other to the list of recovered leaves with its highest key.
\<close>

definition recover_leaf ::
  "pool \<Rightarrow> nat list \<times> (KVLeafNode \<times> bytes) list \<Rightarrow> nat \<Rightarrow> nat list \<times> (KVLeafNode \<times> bytes) list" where
  "recover_leaf pool acc lf =
     (case acc of
        (prealloc, leaves) \<Rightarrow>
          (case recover_slots LEAF_KEYS (pool ! lf) (new_KVLeafNode\<lparr>leaf := lf\<rparr>) None of
             (leafnode, None) \<Rightarrow> (prealloc @ [lf], leaves)
           | (leafnode, Some max_key) \<Rightarrow> (prealloc, leaves @ [(leafnode, max_key)])))"

text \<open>
  The loop of \<open>Recover\<close> that links the sorted leaves: \<open>node\<close> is the tree so far,
  the pair is the leaf linked last, the list holds the leaves to come.
\<close>

fun link_leaves :: "KVNode \<Rightarrow> KVLeafNode \<times> bytes \<Rightarrow> (KVLeafNode \<times> bytes) list \<Rightarrow> KVNode" where
  "link_leaves node rleaf [] = node"
| "link_leaves node rleaf (nxt # rest) =
     link_leaves
       (InnerUpdateAfterSplit (Leaf (fst rleaf)) (Leaf (fst nxt)) (snd rleaf)
          (parents_of (fst rleaf) node))
       nxt rest"

text \<open>
  \<open>Recover\<close> on the pool found at open: the walk from \<open>root.head\<close> (the last leaf of
  the list) along \<open>next\<close>, the stable sort by the highest keys, and the tree.
\<close>

definition Recover :: "pool \<Rightarrow> KVTree" where
  "Recover pool =
     (case foldl (recover_leaf pool) ([], []) (rev [0..<length pool]) of
        (prealloc, leaves) \<Rightarrow>
          \<lparr>pmpool = pool,
           tree_top = (case sort_by_strcmp snd leaves of
                         [] \<Rightarrow> None
                       | rleaf # rest \<Rightarrow> Some (link_leaves (Leaf (fst rleaf)) rleaf rest)),
           leaves_prealloc = prealloc\<rparr>)"

text \<open>Closing the engine and opening its pool again.\<close>

definition reopen :: "KVTree \<Rightarrow> KVTree" where
  "reopen st = Recover (pmpool st)"

section \<open>The search as the specification words it\<close>

text \<open>
  The point query of the specification: at each inner node the first child, in
  ascending index order, whose separator key is greater than or equal to the searched
  key, and the last child where no separator qualifies; in the leaf the slots in
  decreasing index order, a key compared only where the mirrored hash is the hash of the
  searched key. The two comparisons are parameters: \<open>ge sep key\<close> says that the
  separator is greater than or equal to the key, \<open>eq k key\<close> that two keys are equal.
\<close>

definition spec_child_index :: "(bytes \<Rightarrow> bytes \<Rightarrow> bool) \<Rightarrow> bytes \<Rightarrow> bytes list \<Rightarrow> nat" where
  "spec_child_index ge key seps =
     (case find (\<lambda>i. ge (seps ! i) key) [0..<length seps] of
        Some i \<Rightarrow> i
      | None \<Rightarrow> length seps)"

function spec_descend :: "(bytes \<Rightarrow> bytes \<Rightarrow> bool) \<Rightarrow> bytes \<Rightarrow> KVNode \<Rightarrow> KVLeafNode option" where
  "spec_descend ge key (Leaf ln) = Some ln"
| "spec_descend ge key (Inner seps cs) =
     (let i = spec_child_index ge key seps
      in if i < length cs then spec_descend ge key (cs ! i) else None)"
  by pat_completeness auto
termination
proof (relation "measure (\<lambda>(ge, key, node). size node)", goal_cases)
  case 1
  show ?case by simp
next
  case (2 ge key seps cs i)
  then have "cs ! i \<in> set cs" by simp
  then have "size (cs ! i) < Suc (size_list size cs)"
    by (metis less_Suc_eq_le size_list_estimation' order_refl)
  then show ?case by simp
qed

definition spec_LeafSearch :: "(bytes \<Rightarrow> bytes \<Rightarrow> bool) \<Rightarrow> bytes \<Rightarrow> KVTree \<Rightarrow> KVLeafNode option" where
  "spec_LeafSearch ge key st =
     (case tree_top st of None \<Rightarrow> None | Some node \<Rightarrow> spec_descend ge key node)"

definition spec_slot :: "(bytes \<Rightarrow> bytes \<Rightarrow> bool) \<Rightarrow> KVLeafNode \<Rightarrow> bytes \<Rightarrow> nat option" where
  "spec_slot eq ln key =
     find (\<lambda>slot. hashes ln ! slot = PearsonHash key \<and> eq (keys ln ! slot) key)
       (rev [0..<LEAF_KEYS])"

definition spec_Get ::
  "(bytes \<Rightarrow> bytes \<Rightarrow> bool) \<Rightarrow> (bytes \<Rightarrow> bytes \<Rightarrow> bool) \<Rightarrow> bytes \<Rightarrow> bytes \<Rightarrow> KVTree
     \<Rightarrow> (KVStatus \<times> bytes) option" where
  "spec_Get eq ge key val st =
     (case spec_LeafSearch ge key st of
        None \<Rightarrow> Some (NOT_FOUND, val)
      | Some ln \<Rightarrow>
          (case spec_slot eq ln key of
             None \<Rightarrow> Some (NOT_FOUND, val)
           | Some slot \<Rightarrow>
               (case Option.bind (get_ro (pmpool st) (leaf ln) slot) KVSlot_val of
                  None \<Rightarrow> None
                | Some p \<Rightarrow> Some (OK, val @ c_str p))))"

text \<open>
  The comparisons: of all the bytes of the two strings (the byte-lexicographic order and
  bytewise equality), and of the two strings as C strings, up to their first zero byte.
\<close>

definition bytes_ge :: "bytes \<Rightarrow> bytes \<Rightarrow> bool" where
  "bytes_ge sep key \<longleftrightarrow> key \<le> sep"

definition bytes_eq :: "bytes \<Rightarrow> bytes \<Rightarrow> bool" where
  "bytes_eq k key \<longleftrightarrow> k = key"

definition cstr_ge :: "bytes \<Rightarrow> bytes \<Rightarrow> bool" where
  "cstr_ge sep key \<longleftrightarrow> c_str key \<le> c_str sep"

definition cstr_eq :: "bytes \<Rightarrow> bytes \<Rightarrow> bool" where
  "cstr_eq k key \<longleftrightarrow> c_str k = c_str key"

section \<open>Well-formed engines\<close>

text \<open>
  The shape of the volatile tree: a descriptor mirrors \<open>LEAF_KEYS\<close> slots, an inner
  node holds between one and \<open>INNER_KEYS\<close> keys and one child more than keys.
\<close>

fun shape :: "KVNode \<Rightarrow> bool" where
  "shape (Leaf ln) \<longleftrightarrow> length (hashes ln) = LEAF_KEYS \<and> length (keys ln) = LEAF_KEYS"
| "shape (Inner seps cs) \<longleftrightarrow>
     1 \<le> length seps \<and> length seps \<le> INNER_KEYS \<and> length cs = length seps + 1
     \<and> (\<forall>c \<in> set cs. shape c)"

definition shaped :: "KVTree \<Rightarrow> bool" where
  "shaped st \<longleftrightarrow> (case tree_top st of None \<Rightarrow> True | Some node \<Rightarrow> shape node)"

section \<open>Reachable engines and their invariants\<close>

text \<open>
  The engine on a new pool, and the engines reached from it by puts and removes whose
  transactions do not fail and by closing and opening again. The predicate \<open>P\<close>
  says which keys are put.
\<close>

definition fresh :: KVTree where
  "fresh = Recover []"

inductive reachable :: "(bytes \<Rightarrow> bool) \<Rightarrow> KVTree \<Rightarrow> bool" for P :: "bytes \<Rightarrow> bool" where
  reachable_fresh: "reachable P fresh"
| reachable_Put: "reachable P st \<Longrightarrow> P key \<Longrightarrow> reachable P (snd (Put None key val st))"
| reachable_Remove: "reachable P st \<Longrightarrow> reachable P (snd (Remove None key st))"
| reachable_reopen: "reachable P st \<Longrightarrow> reachable P (reopen st)"


text \<open>A key that is a C string: it holds no zero byte.\<close>

definition nul_free :: "bytes \<Rightarrow> bool" where
  "nul_free key \<longleftrightarrow> 0 \<notin> set key"

text \<open>The leaf descriptors, the separator keys and the inner nodes of a tree.\<close>

fun leaves_of :: "KVNode \<Rightarrow> KVLeafNode list" where
  "leaves_of (Leaf ln) = [ln]"
| "leaves_of (Inner seps cs) = concat (map leaves_of cs)"

fun seps_of :: "KVNode \<Rightarrow> bytes list" where
  "seps_of (Leaf ln) = []"
| "seps_of (Inner seps cs) = seps @ concat (map seps_of cs)"

fun inners_of :: "KVNode \<Rightarrow> (bytes list \<times> KVNode list) list" where
  "inners_of (Leaf ln) = []"
| "inners_of (Inner seps cs) = (seps, cs) # concat (map inners_of cs)"

definition tree_leaves :: "KVTree \<Rightarrow> KVLeafNode list" where
  "tree_leaves st = (case tree_top st of None \<Rightarrow> [] | Some node \<Rightarrow> leaves_of node)"

text \<open>The keys a descriptor mirrors in its filled slots, and those under a node.\<close>

definition live_keys :: "KVLeafNode \<Rightarrow> bytes list" where
  "live_keys ln = map (\<lambda>i. keys ln ! i) (filter (\<lambda>i. hashes ln ! i \<noteq> 0) [0..<LEAF_KEYS])"

definition keys_under :: "KVNode \<Rightarrow> bytes set" where
  "keys_under node = (\<Union>ln \<in> set (leaves_of node). set (live_keys ln))"

text \<open>
  A persistent slot is empty, or its buffer is the key of \<open>ks\<close> bytes, a zero byte, the
  value of \<open>vs\<close> bytes and a zero byte, and its hash is the hash of that key.
\<close>

definition slot_key :: "KVSlot \<Rightarrow> bytes" where
  "slot_key s = (case kv s of None \<Rightarrow> [] | Some buf \<Rightarrow> take (ks s) buf)"

definition slot_value :: "KVSlot \<Rightarrow> bytes" where
  "slot_value s = (case kv s of None \<Rightarrow> [] | Some buf \<Rightarrow> take (vs s) (drop (ks s + 1) buf))"

definition slot_ok :: "KVSlot \<Rightarrow> bool" where
  "slot_ok s \<longleftrightarrow>
     (if ph s = 0 then s = empty_slot
      else kv s = Some (slot_key s @ [0] @ slot_value s @ [0])
           \<and> length (slot_key s) = ks s \<and> length (slot_value s) = vs s
           \<and> ph s = PearsonHash (slot_key s))"

definition pool_ok :: "pool \<Rightarrow> bool" where
  "pool_ok pool \<longleftrightarrow>
     (\<forall>lf \<in> set pool. length (slots lf) = LEAF_KEYS \<and> (\<forall>s \<in> set (slots lf). slot_ok s))"

text \<open>
  A descriptor mirrors its persistent leaf: the hashes are those of the slots, the key of
  a filled slot is the slot's key read as a C string, and the key of an empty slot is
  empty.
\<close>

definition mirrors :: "pool \<Rightarrow> KVLeafNode \<Rightarrow> bool" where
  "mirrors pool ln \<longleftrightarrow>
     leaf ln < length pool
     \<and> (\<forall>i < LEAF_KEYS.
            hashes ln ! i = ph (slots (pool ! leaf ln) ! i)
            \<and> (if hashes ln ! i = 0 then keys ln ! i = []
               else c_str (keys ln ! i) = key_string (slots (pool ! leaf ln) ! i)))"

text \<open>No two filled slots of a descriptor match the same key.\<close>

definition unique_keys :: "KVLeafNode \<Rightarrow> bool" where
  "unique_keys ln \<longleftrightarrow>
     (\<forall>i < LEAF_KEYS. \<forall>j < LEAF_KEYS.
        i \<noteq> j \<and> hashes ln ! i \<noteq> 0 \<and> hashes ln ! i = hashes ln ! j
        \<longrightarrow> c_str (keys ln ! i) \<noteq> c_str (keys ln ! j))"

text \<open>
  The invariant of every reachable engine: the pool and the tree have their shapes,
  every descriptor mirrors its leaf and has unique keys, every leaf of the pool belongs
  to exactly one descriptor of the tree or to the free list, and the free leaves are
  empty.
\<close>

definition engine_inv :: "KVTree \<Rightarrow> bool" where
  "engine_inv st \<longleftrightarrow>
     pool_ok (pmpool st) \<and> shaped st
     \<and> (\<forall>ln \<in> set (tree_leaves st). mirrors (pmpool st) ln \<and> unique_keys ln)
     \<and> distinct (map leaf (tree_leaves st) @ leaves_prealloc st)
     \<and> set (map leaf (tree_leaves st)) \<union> set (leaves_prealloc st) = {0..<length (pmpool st)}
     \<and> (\<forall>a \<in> set (leaves_prealloc st). \<forall>s \<in> set (slots (pmpool st ! a)). ph s = 0)"

text \<open>
  The frames \<open>p\<close>, the innermost first, lead from the node \<open>node\<close> down to its
  subtree \<open>sub\<close>.
\<close>

fun path_in :: "KVNode \<Rightarrow> frame list \<Rightarrow> KVNode \<Rightarrow> bool" where
  "path_in node [] sub \<longleftrightarrow> sub = node"
| "path_in node ((seps, cs, i) # up) sub \<longleftrightarrow>
     i < length cs \<and> cs ! i = sub \<and> path_in node up (Inner seps cs)"

section \<open>Auxiliary notions used in the proofs\<close>

definition ins_seps :: "bytes \<Rightarrow> bytes list \<Rightarrow> bytes list" where
  "ins_seps k seps =
     (let idx = length (takeWhile (\<lambda>s. string_compare s k \<le> 0) seps)
      in take idx seps @ [k] @ drop idx seps)"

definition ins_children :: "bytes \<Rightarrow> bytes list \<Rightarrow> KVNode \<Rightarrow> KVNode list \<Rightarrow> KVNode list" where
  "ins_children k seps n cs =
     (let idx = length (takeWhile (\<lambda>s. string_compare s k \<le> 0) seps)
      in take (idx + 1) cs @ [n] @ drop (idx + 1) cs)"

definition moved :: "bytes \<Rightarrow> KVLeafNode \<Rightarrow> nat \<Rightarrow> nat \<Rightarrow> bool" where
  "moved sk ln n i \<longleftrightarrow> i < n \<and> strcmp (keys ln ! i) sk > 0"

definition pool_unique :: "pool \<Rightarrow> bool" where
  "pool_unique pool \<longleftrightarrow>
     (\<forall>c < length pool. \<forall>i < LEAF_KEYS. \<forall>j < LEAF_KEYS.
        i \<noteq> j \<and> ph (slots (pool ! c) ! i) \<noteq> 0
          \<and> ph (slots (pool ! c) ! i) = ph (slots (pool ! c) ! j)
        \<longrightarrow> key_string (slots (pool ! c) ! i) \<noteq> key_string (slots (pool ! c) ! j))"

definition recovered :: "pool \<Rightarrow> nat \<Rightarrow> KVLeafNode" where
  "recovered pool a = fst (recover_slots LEAF_KEYS (pool ! a) (new_KVLeafNode\<lparr>leaf := a\<rparr>) None)"

definition max_key_of :: "pool \<Rightarrow> nat \<Rightarrow> bytes option" where
  "max_key_of pool a = snd (recover_slots LEAF_KEYS (pool ! a) (new_KVLeafNode\<lparr>leaf := a\<rparr>) None)"

definition recovered_leaves :: "pool \<Rightarrow> (KVLeafNode \<times> bytes) list" where
  "recovered_leaves pool =
     sort_by_strcmp snd
       (map (\<lambda>a. (recovered pool a, the (max_key_of pool a)))
          (filter (\<lambda>a. max_key_of pool a \<noteq> None) (rev [0..<length pool])))"

section \<open>The order of the tree\<close>

text \<open>
  The tree read from left to right: its leaf descriptors, and between the subtrees of
  an inner node the keys of that node.
\<close>

datatype item = L KVLeafNode | S bytes

fun interleave :: "'a list list \<Rightarrow> 'a list \<Rightarrow> 'a list" where
  "interleave (x # xs) (s # ss) = x @ s # interleave xs ss"
| "interleave xs [] = concat xs"
| "interleave [] ss = []"

fun flat :: "KVNode \<Rightarrow> item list" where
  "flat (Leaf ln) = [L ln]"
| "flat (Inner seps cs) = interleave (map flat cs) (map S seps)"

text \<open>
  What stands left and right of a subtree in that reading: for one frame the children
  before it, each followed by its key, and the keys from its index on, each followed by
  the next child.
\<close>

definition lefts :: "'a list list \<Rightarrow> 'a list \<Rightarrow> 'a list" where
  "lefts xs ss = concat (map2 (\<lambda>x s. x @ [s]) xs ss)"

definition rights :: "'a list \<Rightarrow> 'a list list \<Rightarrow> 'a list" where
  "rights ss xs = concat (map2 (\<lambda>s x. s # x) ss xs)"

fun ctx :: "frame list \<Rightarrow> item list \<times> item list" where
  "ctx [] = ([], [])"
| "ctx ((seps, cs, i) # up) =
     (fst (ctx up) @ lefts (take i (map flat cs)) (take i (map S seps)),
      rights (drop i (map S seps)) (drop (i + 1) (map flat cs)) @ snd (ctx up))"

text \<open>
  The order between two items of the reading: keys ascend strictly, the keys of a leaf
  are not above a key to its right and are above a key to its left, and the keys of a
  leaf are below those of a leaf to its right. Compared are the keys of the filled slots.
\<close>

fun item_le :: "item \<Rightarrow> item \<Rightarrow> bool" where
  "item_le (S a) (S b) \<longleftrightarrow> a < b"
| "item_le (S a) (L l) \<longleftrightarrow> (\<forall>k \<in> set (live_keys l). a < k)"
| "item_le (L l) (S b) \<longleftrightarrow> (\<forall>k \<in> set (live_keys l). k \<le> b)"
| "item_le (L l) (L l') \<longleftrightarrow> (\<forall>k \<in> set (live_keys l). \<forall>k' \<in> set (live_keys l'). k < k')"

text \<open>An item left of a searched key, and one right of it.\<close>

fun before :: "item \<Rightarrow> bytes \<Rightarrow> bool" where
  "before (S a) k \<longleftrightarrow> a < k"
| "before (L l) k \<longleftrightarrow> (\<forall>x \<in> set (live_keys l). x < k)"

fun after :: "bytes \<Rightarrow> item \<Rightarrow> bool" where
  "after k (S b) \<longleftrightarrow> k \<le> b"
| "after k (L l) \<longleftrightarrow> (\<forall>x \<in> set (live_keys l). k < x)"

text \<open>An item whose keys are C strings.\<close>

fun item_ok :: "item \<Rightarrow> bool" where
  "item_ok (S a) \<longleftrightarrow> nul_free a"
| "item_ok (L l) \<longleftrightarrow> (\<forall>k \<in> set (keys l). nul_free k)"

text \<open>
  The invariant of the engines reached by putting C strings only: no stored key holds a
  zero byte, the reading of the tree is ordered and all its keys are C strings.
\<close>

definition pool_nul_free :: "pool \<Rightarrow> bool" where
  "pool_nul_free pool \<longleftrightarrow>
     (\<forall>c < length pool. \<forall>i < LEAF_KEYS. nul_free (slot_key (slots (pool ! c) ! i)))"

definition tree_sorted :: "KVNode \<Rightarrow> bool" where
  "tree_sorted t \<longleftrightarrow> sorted_wrt item_le (flat t) \<and> (\<forall>x \<in> set (flat t). item_ok x)"

definition cstring_inv :: "KVTree \<Rightarrow> bool" where
  "cstring_inv st \<longleftrightarrow>
     pool_nul_free (pmpool st)
     \<and> (case tree_top st of None \<Rightarrow> True | Some t \<Rightarrow> tree_sorted t)"

text \<open>
  The keys a persistent leaf stores; the leaves of a pool whose key ranges do not
  overlap; a recovered descriptor with its highest key.
\<close>

definition leaf_keys :: "pool \<Rightarrow> nat \<Rightarrow> bytes set" where
  "leaf_keys pool a =
     {slot_key (slots (pool ! a) ! i) | i. i < LEAF_KEYS \<and> ph (slots (pool ! a) ! i) \<noteq> 0}"

definition pool_separated :: "pool \<Rightarrow> bool" where
  "pool_separated pool \<longleftrightarrow>
     (\<forall>a < length pool. \<forall>b < length pool. a \<noteq> b \<longrightarrow>
        (\<forall>x \<in> leaf_keys pool a. \<forall>y \<in> leaf_keys pool b. x < y)
        \<or> (\<forall>x \<in> leaf_keys pool a. \<forall>y \<in> leaf_keys pool b. y < x))"

definition leaf_max :: "KVLeafNode \<times> bytes \<Rightarrow> bool" where
  "leaf_max r \<longleftrightarrow>
     snd r \<in> set (live_keys (fst r)) \<and> (\<forall>k \<in> set (live_keys (fst r)). k \<le> snd r)"

section \<open>Comparisons and the hash\<close>

lemma string_compare_less: "string_compare a b < 0 \<longleftrightarrow> a < b"
  by (induction a b rule: string_compare.induct) auto

lemma string_compare_eq: "string_compare a b = 0 \<longleftrightarrow> a = b"
  by (induction a b rule: string_compare.induct) auto

lemma string_compare_greater: "string_compare a b > 0 \<longleftrightarrow> b < a"
  by (induction a b rule: string_compare.induct) auto

lemma string_compare_le: "string_compare a b \<le> 0 \<longleftrightarrow> a \<le> b"
  using string_compare_greater [of a b] by (simp add: not_less [symmetric])

lemma strcmp_c_str: "strcmp a b = string_compare (c_str a) (c_str b)"
  by (induction a b rule: strcmp.induct) (auto simp: c_str_def word_gt_0)

lemma strcmp_less: "strcmp a b < 0 \<longleftrightarrow> c_str a < c_str b"
  by (simp add: strcmp_c_str string_compare_less)

lemma strcmp_eq: "strcmp a b = 0 \<longleftrightarrow> c_str a = c_str b"
  by (simp add: strcmp_c_str string_compare_eq)

lemma strcmp_greater: "strcmp a b > 0 \<longleftrightarrow> c_str b < c_str a"
  by (simp add: strcmp_c_str string_compare_greater)

lemma strcmp_le: "strcmp a b \<le> 0 \<longleftrightarrow> c_str a \<le> c_str b"
  by (simp add: strcmp_c_str string_compare_le)

lemma c_str_nul_free: "nul_free k \<Longrightarrow> c_str k = k"
  by (auto simp: nul_free_def c_str_def takeWhile_eq_all_conv)

lemma nul_free_c_str: "nul_free (c_str k)"
  by (auto simp: nul_free_def c_str_def dest: set_takeWhileD)

lemma c_str_idem: "c_str (c_str k) = c_str k"
  by (simp add: c_str_nul_free nul_free_c_str)

lemma c_str_append_zero: "nul_free k \<Longrightarrow> c_str (k @ 0 # rest) = k"
proof -
  assume "nul_free k"
  then have "\<forall>x \<in> set k. x \<noteq> 0"
    by (auto simp: nul_free_def)
  then show ?thesis
    by (simp add: c_str_def takeWhile_append2)
qed

lemma insert_by_strcmp_insort: "insert_by_strcmp f x xs = insort_key (\<lambda>x. c_str (f x)) x xs"
  by (induction xs) (auto simp: strcmp_le)

lemma sort_by_strcmp_sort_key: "sort_by_strcmp f xs = sort_key (\<lambda>x. c_str (f x)) xs"
  by (induction xs) (auto simp: sort_by_strcmp_def insert_by_strcmp_insort)



lemma PearsonHash_nonzero: "PearsonHash data \<noteq> 0"
  by (simp add: PearsonHash_def Let_def)

section \<open>The search\<close>

lemma find_map_option: "find P (map f xs) = map_option f (find (\<lambda>x. P (f x)) xs)"
  by (induction xs) auto

lemma find_upt_shift:
  "find (\<lambda>i. P i) [Suc m..<Suc n] = map_option Suc (find (\<lambda>i. P (Suc i)) [m..<n])"
proof -
  have "[Suc m..<Suc n] = map Suc [m..<n]"
    by (simp add: map_Suc_upt)
  then show ?thesis
    by (simp only: find_map_option)
qed

lemma child_index_spec: "child_index key seps = spec_child_index cstr_ge key seps"
proof (induction seps)
  case Nil
  then show ?case by (simp add: spec_child_index_def)
next
  case (Cons k rest)
  have upt: "[0..<Suc (length rest)] = 0 # [Suc 0..<Suc (length rest)]"
    by (rule upt_conv_Cons) simp
  show ?case
    using Cons
    by (simp add: spec_child_index_def upt find_upt_shift cstr_ge_def strcmp_le
          split: option.splits del: upt_Suc)
qed

lemma child_index_le: "child_index key seps \<le> length seps"
  by (induction seps) auto

lemma descend_spec: "map_option snd (descend key node path) = spec_descend cstr_ge key node"
  by (induction key node path rule: descend.induct) (simp_all add: child_index_spec Let_def)

lemma find_slot_spec:
  "find_slot n ln (PearsonHash key) key =
     find (\<lambda>slot. hashes ln ! slot = PearsonHash key \<and> cstr_eq (keys ln ! slot) key) (rev [0..<n])"
  by (induction n) (simp_all add: cstr_eq_def strcmp_eq)

lemma shape_descend: "shape node \<Longrightarrow> descend key node path \<noteq> None"
proof (induction key node path rule: descend.induct)
  case (1 key ln path)
  then show ?case by simp
next
  case (2 key seps cs path)
  then show ?case
    using child_index_le [of key seps] by (auto simp: Let_def)
qed

section \<open>Paths\<close>

lemma descend_path_in:
  "descend key node acc = Some (p, ln) \<Longrightarrow> path_in t acc node \<Longrightarrow> path_in t p (Leaf ln)"
proof (induction key node acc arbitrary: p ln rule: descend.induct)
  case (1 key l path)
  then show ?case by simp
next
  case (2 key seps cs path)
  then show ?case
    by (auto simp: Let_def split: if_splits)
qed

lemma descend_index:
  "descend key node acc = Some (p, ln) \<Longrightarrow>
     \<forall>(seps, cs, i) \<in> set acc. i = child_index key seps \<Longrightarrow>
     \<forall>(seps, cs, i) \<in> set p. i = child_index key seps"
proof (induction key node acc arbitrary: p ln rule: descend.induct)
  case (1 key l path)
  then show ?case by simp
next
  case (2 key seps cs path)
  then show ?case
    by (auto simp: Let_def split: if_splits)
qed

lemma LeafSearch_path_in:
  "LeafSearch key st = Some (p, ln) \<Longrightarrow> tree_top st = Some t \<Longrightarrow> path_in t p (Leaf ln)"
  by (auto simp: LeafSearch_def dest: descend_path_in [where t = t])

lemma plug_same: "path_in t p sub \<Longrightarrow> plug sub p = t"
  by (induction p arbitrary: sub) auto

lemma path_in_shape: "path_in t p sub \<Longrightarrow> shape t \<Longrightarrow> shape sub"
proof (induction p arbitrary: sub)
  case Nil
  then show ?case by simp
next
  case (Cons f up)
  obtain seps cs i where f: "f = (seps, cs, i)" by (cases f)
  from Cons.prems f have up: "path_in t up (Inner seps cs)" and i: "i < length cs" and sub: "cs ! i = sub"
    by simp_all
  from Cons.IH [OF up Cons.prems(2)] have "\<forall>c \<in> set cs. shape c" by simp
  with i sub show ?case using nth_mem by blast
qed

lemma shape_update: "shape (Inner seps cs) \<Longrightarrow> shape n \<Longrightarrow> shape (Inner seps (cs[i := n]))"
  by (auto dest: set_update_subset_insert [THEN subsetD])

lemma shape_plug: "path_in t p sub \<Longrightarrow> shape t \<Longrightarrow> shape n \<Longrightarrow> shape (plug n p)"
proof (induction p arbitrary: sub n)
  case Nil
  then show ?case by simp
next
  case (Cons f up)
  obtain seps cs i where f: "f = (seps, cs, i)" by (cases f)
  from Cons.prems f have up: "path_in t up (Inner seps cs)" by simp
  then have "shape (Inner seps cs)" using Cons.prems(2) by (rule path_in_shape)
  then have "shape (Inner seps (cs[i := n]))" using Cons.prems(3) by (rule shape_update)
  with Cons.IH [OF up Cons.prems(2)] f show ?case by simp
qed

lemma mset_concat_update:
  "i < length cs \<Longrightarrow>
     mset (concat (map f (cs[i := n]))) + mset (f (cs ! i)) = mset (concat (map f cs)) + mset (f n)"
proof (induction cs arbitrary: i)
  case Nil
  then show ?case by simp
next
  case (Cons c cs)
  then show ?case by (cases i) (auto simp: ac_simps)
qed

lemma leaves_plug:
  "path_in t p sub \<Longrightarrow>
     mset (leaves_of (plug n p)) + mset (leaves_of sub) = mset (leaves_of t) + mset (leaves_of n)"
proof (induction p arbitrary: sub n)
  case Nil
  then show ?case by simp
next
  case (Cons f up)
  obtain seps cs i where f: "f = (seps, cs, i)" by (cases f)
  from Cons.prems f have up: "path_in t up (Inner seps cs)" and i: "i < length cs" and sub: "cs ! i = sub"
    by simp_all
  have a: "mset (leaves_of (plug (Inner seps (cs[i := n])) up)) + mset (leaves_of (Inner seps cs))
            = mset (leaves_of t) + mset (leaves_of (Inner seps (cs[i := n])))"
    by (rule Cons.IH [OF up])
  have b: "mset (leaves_of (Inner seps (cs[i := n]))) + mset (leaves_of sub)
            = mset (leaves_of (Inner seps cs)) + mset (leaves_of n)"
    using mset_concat_update [OF i, of leaves_of n] sub by simp
  have "mset (leaves_of (plug n (f # up))) + mset (leaves_of sub) + mset (leaves_of (Inner seps cs))
        = mset (leaves_of t) + mset (leaves_of n) + mset (leaves_of (Inner seps cs))"
    using a b f by (simp add: ac_simps)
  then show ?case by simp
qed

lemma mset_concat_insert:
  "mset (concat (map f (take j cs @ [n] @ drop j cs))) = mset (concat (map f cs)) + mset (f n)"
proof -
  have "concat (map f cs) = concat (map f (take j cs)) @ concat (map f (drop j cs))"
    by (metis append_take_drop_id concat_append map_append)
  then show ?thesis by simp
qed

lemma takeWhile_idx_le: "length (takeWhile P xs) \<le> length xs"
  by (rule length_takeWhile_le)

lemma IUAS_Cons:
  "InnerUpdateAfterSplit n1 n2 k ((seps, cs0, i) # up) =
     (if length seps + 1 \<le> INNER_KEYS
      then plug (Inner (ins_seps k seps) (ins_children k seps n2 (cs0[i := n1]))) up
      else InnerUpdateAfterSplit
             (Inner (take INNER_KEYS_MIDPOINT (ins_seps k seps))
                    (take (INNER_KEYS_MIDPOINT + 1) (ins_children k seps n2 (cs0[i := n1]))))
             (Inner (take INNER_KEYS_MIDPOINT (drop INNER_KEYS_UPPER (ins_seps k seps)))
                    (take (INNER_KEYS_MIDPOINT + 1)
                       (drop INNER_KEYS_UPPER (ins_children k seps n2 (cs0[i := n1])))))
             (ins_seps k seps ! INNER_KEYS_MIDPOINT) up)"
  by (simp add: ins_seps_def ins_children_def Let_def)

declare InnerUpdateAfterSplit.simps(2) [simp del]

lemma length_ins_seps: "length (ins_seps k seps) = length seps + 1"
  by (simp add: ins_seps_def Let_def)

lemma length_ins_children:
  "length cs = length seps + 1 \<Longrightarrow> length (ins_children k seps n cs) = length cs + 1"
  using length_takeWhile_le [of "\<lambda>s. string_compare s k \<le> 0" seps]
  by (simp add: ins_children_def Let_def)

lemma set_ins_children: "set (ins_children k seps n cs) = insert n (set cs)"
proof -
  have "set (take j cs) \<union> set (drop j cs) = set cs" for j
    by (metis append_take_drop_id set_append)
  then show ?thesis by (auto simp: ins_children_def Let_def)
qed

lemma leaves_ins_children:
  "mset (concat (map leaves_of (ins_children k seps n cs)))
     = mset (concat (map leaves_of cs)) + mset (leaves_of n)"
  unfolding ins_children_def Let_def by (rule mset_concat_insert)

lemma inner_consts: "INNER_KEYS = 4" "INNER_KEYS_MIDPOINT = 2" "INNER_KEYS_UPPER = 3"
  by (simp_all add: INNER_KEYS_def INNER_KEYS_MIDPOINT_def INNER_KEYS_UPPER_def)

lemma split_six:
  "length (xs :: 'a list) = 6 \<Longrightarrow> take 3 xs @ take 3 (drop 3 xs) = xs"
proof -
  assume "length xs = 6"
  then have "take 3 (drop 3 xs) = drop 3 xs" by simp
  then show ?thesis by simp
qed

lemma IUAS_shape:
  "path_in t p sub \<Longrightarrow> shape t \<Longrightarrow> shape n1 \<Longrightarrow> shape n2
     \<Longrightarrow> shape (InnerUpdateAfterSplit n1 n2 k p)"
proof (induction p arbitrary: sub n1 n2 k)
  case Nil
  then show ?case by (simp add: inner_consts)
next
  case (Cons f up)
  obtain seps cs0 i where f: "f = (seps, cs0, i)" by (cases f)
  from Cons.prems f have up: "path_in t up (Inner seps cs0)" and i: "i < length cs0"
    by simp_all
  from up Cons.prems(2) have sh0: "shape (Inner seps cs0)" by (rule path_in_shape)
  let ?cs = "cs0[i := n1]"
  let ?seps' = "ins_seps k seps"
  let ?cs' = "ins_children k seps n2 ?cs"
  have len: "length ?seps' = length seps + 1" "length ?cs' = length seps + 2"
    using sh0 by (simp_all add: length_ins_seps length_ins_children)
  have all: "\<forall>c \<in> set ?cs'. shape c"
    using sh0 Cons.prems(3,4) by (auto simp: set_ins_children dest: set_update_subset_insert [THEN subsetD])
  show ?case
  proof (cases "length seps + 1 \<le> INNER_KEYS")
    case True
    then have "shape (Inner ?seps' ?cs')"
      using len all by simp
    with up Cons.prems(2) have "shape (plug (Inner ?seps' ?cs') up)"
      by (rule shape_plug)
    with True f show ?thesis by (simp add: IUAS_Cons)
  next
    case False
    with sh0 have four: "length seps = 4" by (simp add: inner_consts)
    have l: "shape (Inner (take INNER_KEYS_MIDPOINT ?seps') (take (INNER_KEYS_MIDPOINT + 1) ?cs'))"
      using len all four by (auto simp: inner_consts dest: in_set_takeD)
    have r: "shape (Inner (take INNER_KEYS_MIDPOINT (drop INNER_KEYS_UPPER ?seps'))
                          (take (INNER_KEYS_MIDPOINT + 1) (drop INNER_KEYS_UPPER ?cs')))"
      using len all four by (auto simp: inner_consts dest!: in_set_takeD in_set_dropD)
    from Cons.IH [OF up Cons.prems(2) l r] False f show ?thesis
      by (simp add: IUAS_Cons)
  qed
qed

lemma IUAS_leaves:
  "path_in t p sub \<Longrightarrow> shape t \<Longrightarrow>
     mset (leaves_of (InnerUpdateAfterSplit n1 n2 k p)) + mset (leaves_of sub)
       = mset (leaves_of t) + mset (leaves_of n1) + mset (leaves_of n2)"
proof (induction p arbitrary: sub n1 n2 k)
  case Nil
  then show ?case by simp
next
  case (Cons f up)
  obtain seps cs0 i where f: "f = (seps, cs0, i)" by (cases f)
  from Cons.prems f have up: "path_in t up (Inner seps cs0)" and i: "i < length cs0"
    and sub: "cs0 ! i = sub"
    by simp_all
  from up Cons.prems(2) have sh0: "shape (Inner seps cs0)" by (rule path_in_shape)
  let ?cs = "cs0[i := n1]"
  let ?seps' = "ins_seps k seps"
  let ?cs' = "ins_children k seps n2 ?cs"
  have len: "length ?seps' = length seps + 1" "length ?cs' = length seps + 2"
    using sh0 by (simp_all add: length_ins_seps length_ins_children)
  have lv: "mset (concat (map leaves_of ?cs')) + mset (leaves_of sub)
              = mset (concat (map leaves_of cs0)) + mset (leaves_of n1) + mset (leaves_of n2)"
    using mset_concat_update [OF i, of leaves_of n1] sub
    by (simp add: leaves_ins_children)
  show ?case
  proof (cases "length seps + 1 \<le> INNER_KEYS")
    case True
    have "mset (leaves_of (plug (Inner ?seps' ?cs') up)) + mset (leaves_of (Inner seps cs0))
            = mset (leaves_of t) + mset (leaves_of (Inner ?seps' ?cs'))"
      using up by (rule leaves_plug)
    then have "mset (leaves_of (plug (Inner ?seps' ?cs') up)) + mset (leaves_of sub)
                 + mset (concat (map leaves_of cs0))
            = mset (leaves_of t) + mset (leaves_of n1) + mset (leaves_of n2)
                 + mset (concat (map leaves_of cs0))"
      using lv by (simp add: ac_simps)
    with True f show ?thesis by (simp add: IUAS_Cons)
  next
    case False
    with sh0 have four: "length seps = 4" by (simp add: inner_consts)
    let ?l = "Inner (take INNER_KEYS_MIDPOINT ?seps') (take (INNER_KEYS_MIDPOINT + 1) ?cs')"
    let ?r = "Inner (take INNER_KEYS_MIDPOINT (drop INNER_KEYS_UPPER ?seps'))
                    (take (INNER_KEYS_MIDPOINT + 1) (drop INNER_KEYS_UPPER ?cs'))"
    have "take 3 ?cs' @ take 3 (drop 3 ?cs') = ?cs'"
      using len four by (intro split_six) simp
    then have "concat (map leaves_of (take 3 ?cs')) @ concat (map leaves_of (take 3 (drop 3 ?cs')))
                = concat (map leaves_of ?cs')"
      by (metis concat_append map_append)
    then have lr: "mset (leaves_of ?l) + mset (leaves_of ?r) = mset (concat (map leaves_of ?cs'))"
      by (simp add: inner_consts) (metis mset_append)
    have "mset (leaves_of (InnerUpdateAfterSplit ?l ?r (?seps' ! INNER_KEYS_MIDPOINT) up))
             + mset (leaves_of (Inner seps cs0))
            = mset (leaves_of t) + mset (leaves_of ?l) + mset (leaves_of ?r)"
      using up Cons.prems(2) by (rule Cons.IH)
    then have "mset (leaves_of (InnerUpdateAfterSplit ?l ?r (?seps' ! INNER_KEYS_MIDPOINT) up))
                 + mset (leaves_of sub) + mset (concat (map leaves_of cs0))
            = mset (leaves_of t) + mset (leaves_of n1) + mset (leaves_of n2)
                 + mset (concat (map leaves_of cs0))"
      using lv lr by (simp add: ac_simps)
    with False f show ?thesis by (simp add: IUAS_Cons)
  qed
qed

section \<open>The scans of a leaf\<close>

lemma find_slot_Some:
  "find_slot n ln h key = Some s \<Longrightarrow>
     s < n \<and> hashes ln ! s = h \<and> strcmp (keys ln ! s) key = 0
     \<and> (\<forall>j. s < j \<and> j < n \<longrightarrow> \<not> (hashes ln ! j = h \<and> strcmp (keys ln ! j) key = 0))"
  by (induction n) (auto split: if_splits simp: less_Suc_eq)

lemma find_slot_None:
  "find_slot n ln h key = None \<longleftrightarrow>
     (\<forall>j < n. \<not> (hashes ln ! j = h \<and> strcmp (keys ln ! j) key = 0))"
  by (induction n) (auto simp: less_Suc_eq)

lemma first_empty_Some:
  "first_empty n ln = Some s \<Longrightarrow>
     s < n \<and> hashes ln ! s = 0 \<and> (\<forall>j. s < j \<and> j < n \<longrightarrow> hashes ln ! j \<noteq> 0)"
  by (induction n) (auto split: if_splits simp: less_Suc_eq)

lemma first_empty_None: "first_empty n ln = None \<longleftrightarrow> (\<forall>j < n. hashes ln ! j \<noteq> 0)"
  by (induction n) (auto simp: less_Suc_eq)

lemma scan_slots_match: "h \<noteq> 0 \<Longrightarrow> snd (scan_slots n ln h key le) = find_slot n ln h key"
  by (induction n arbitrary: le) (auto simp: Let_def)

lemma scan_slots_Some_fst: "fst (scan_slots n ln h key (Some x)) \<noteq> None"
  by (induction n arbitrary: x) (auto simp: Let_def)

lemma scan_slots_empty:
  "fst (scan_slots n ln h key le) = Some e \<Longrightarrow> le = Some e \<or> (e < n \<and> hashes ln ! e = 0)"
  by (induction n arbitrary: le) (auto simp: Let_def less_Suc_eq split: if_splits)

lemma scan_slots_full:
  "scan_slots n ln h key le = (None, None) \<Longrightarrow> \<forall>j < n. hashes ln ! j \<noteq> 0"
proof (induction n arbitrary: le)
  case 0
  then show ?case by simp
next
  case (Suc n)
  show ?case
  proof (cases "hashes ln ! n = 0")
    case True
    with Suc.prems have "scan_slots n ln h key (Some n) = (None, None)"
      by (simp add: Let_def)
    then have "fst (scan_slots n ln h key (Some n)) = None" by simp
    then show ?thesis using scan_slots_Some_fst by blast
  next
    case False
    with Suc.prems have "scan_slots n ln h key le = (None, None)"
      by (auto simp: Let_def split: if_splits)
    from Suc.IH [OF this] False show ?thesis by (auto simp: less_Suc_eq)
  qed
qed

section \<open>Slots and pools\<close>

lemma c_str_append_zero_any: "c_str (k @ 0 # rest) = c_str k"
proof (induction k)
  case Nil
  then show ?case by (simp add: c_str_def)
next
  case (Cons a k)
  then show ?case by (simp add: c_str_def)
qed

lemma slot_ok_empty: "slot_ok empty_slot"
  by (simp add: slot_ok_def empty_slot_def)

lemma slot_ok_clear: "slot_ok (KVSlot_clear s)"
  by (simp add: slot_ok_def empty_slot_def KVSlot_clear_def)

lemma slot_ok_set: "slot_ok (KVSlot_set (PearsonHash key) key val s)"
  by (simp add: slot_ok_def KVSlot_set_def slot_key_def slot_value_def PearsonHash_nonzero)

lemma key_string_set: "key_string (KVSlot_set h key val s) = c_str key"
  by (simp add: key_string_def KVSlot_key_def KVSlot_set_def c_str_append_zero_any)

lemma ph_set: "ph (KVSlot_set h key val s) = h"
  by (simp add: KVSlot_set_def)

lemma ph_clear: "ph (KVSlot_clear s) = 0"
  by (simp add: KVSlot_clear_def)

lemma put_slot_nth:
  "a < length pool \<Longrightarrow>
     put_slot pool a i s ! b = (if b = a then (pool ! a)\<lparr>slots := (slots (pool ! a))[i := s]\<rparr> else pool ! b)"
  by (simp add: put_slot_def)

lemma length_put_slot: "length (put_slot pool a i s) = length pool"
  by (simp add: put_slot_def)

lemma pool_ok_nth: "pool_ok pool \<Longrightarrow> a < length pool \<Longrightarrow> length (slots (pool ! a)) = LEAF_KEYS"
  by (simp add: pool_ok_def)

lemma pool_ok_slot:
  "pool_ok pool \<Longrightarrow> a < length pool \<Longrightarrow> i < LEAF_KEYS \<Longrightarrow> slot_ok (slots (pool ! a) ! i)"
proof -
  assume ok: "pool_ok pool" and a: "a < length pool" and i: "i < LEAF_KEYS"
  from a have "pool ! a \<in> set pool" by simp
  with ok have "length (slots (pool ! a)) = LEAF_KEYS" and all: "\<forall>s \<in> set (slots (pool ! a)). slot_ok s"
    by (simp_all add: pool_ok_def)
  with i have "slots (pool ! a) ! i \<in> set (slots (pool ! a))" by simp
  with all show ?thesis by blast
qed

lemma pool_ok_put_slot:
  "pool_ok pool \<Longrightarrow> slot_ok s \<Longrightarrow> pool_ok (put_slot pool a i s)"
proof (cases "a < length pool")
  case False
  assume "pool_ok pool"
  with False show ?thesis by (simp add: put_slot_def list_update_beyond)
next
  case True
  assume ok: "pool_ok pool" and s: "slot_ok s"
  from True have mem: "pool ! a \<in> set pool" by simp
  let ?lf = "(pool ! a)\<lparr>slots := (slots (pool ! a))[i := s]\<rparr>"
  have "length (slots ?lf) = LEAF_KEYS"
    using ok mem by (simp add: pool_ok_def)
  moreover have "\<forall>x \<in> set (slots ?lf). slot_ok x"
    using ok mem s by (auto simp: pool_ok_def dest!: set_update_subset_insert [THEN subsetD])
  ultimately show ?thesis
    using ok unfolding pool_ok_def put_slot_def
    by (auto dest!: set_update_subset_insert [THEN subsetD])
qed

lemma pool_ok_append: "pool_ok pool \<Longrightarrow> pool_ok (pool @ [empty_leaf])"
  by (auto simp: pool_ok_def empty_leaf_def slot_ok_empty)

section \<open>Updating one leaf\<close>

lemma path_in_leaves: "path_in t p sub \<Longrightarrow> set (leaves_of sub) \<subseteq> set (leaves_of t)"
proof (induction p arbitrary: sub)
  case Nil
  then show ?case by simp
next
  case (Cons f up)
  obtain seps cs i where f: "f = (seps, cs, i)" by (cases f)
  from Cons.prems f have up: "path_in t up (Inner seps cs)" and i: "i < length cs" and sub: "cs ! i = sub"
    by simp_all
  from i sub have "set (leaves_of sub) \<subseteq> set (leaves_of (Inner seps cs))"
    using nth_mem by fastforce
  with Cons.IH [OF up] show ?case by blast
qed

lemma fill_results:
  "LeafFillSpecificSlot None ln h key val s pool =
     (None,
      (if hashes ln ! s = 0
       then ln\<lparr>hashes := (hashes ln)[s := h], keys := (keys ln)[s := key]\<rparr> else ln),
      put_slot pool (leaf ln) s (KVSlot_set h key val (slots (pool ! leaf ln) ! s)))"
  by (simp add: LeafFillSpecificSlot_def Let_def)

lemma mirrors_fill:
  assumes m: "mirrors pool ln" and ok: "pool_ok pool" and s: "s < LEAF_KEYS"
    and sh: "shape (Leaf ln)"
    and c: "hashes ln ! s = 0 \<or> (hashes ln ! s = h \<and> c_str (keys ln ! s) = c_str key)"
    and h: "h \<noteq> 0"
    and r: "LeafFillSpecificSlot None ln h key val s pool = (e, ln', pool')"
  shows "mirrors pool' ln' \<and> leaf ln' = leaf ln \<and> shape (Leaf ln')"
proof -
  from m have a: "leaf ln < length pool" by (simp add: mirrors_def)
  from ok a have len: "length (slots (pool ! leaf ln)) = LEAF_KEYS" by (rule pool_ok_nth)
  from r have ln': "ln' = (if hashes ln ! s = 0
       then ln\<lparr>hashes := (hashes ln)[s := h], keys := (keys ln)[s := key]\<rparr> else ln)"
    and pool': "pool' = put_slot pool (leaf ln) s (KVSlot_set h key val (slots (pool ! leaf ln) ! s))"
    by (simp_all add: fill_results)
  have l: "leaf ln' = leaf ln" using ln' by simp
  have shp: "shape (Leaf ln')" using ln' sh by simp
  have "\<forall>i < LEAF_KEYS.
            hashes ln' ! i = ph (slots (pool' ! leaf ln') ! i)
            \<and> (if hashes ln' ! i = 0 then keys ln' ! i = []
               else c_str (keys ln' ! i) = key_string (slots (pool' ! leaf ln') ! i))"
  proof (intro allI impI)
    fix i assume i: "i < LEAF_KEYS"
    from m i have mi: "hashes ln ! i = ph (slots (pool ! leaf ln) ! i)"
      "if hashes ln ! i = 0 then keys ln ! i = []
       else c_str (keys ln ! i) = key_string (slots (pool ! leaf ln) ! i)"
      by (simp_all add: mirrors_def)
    show "hashes ln' ! i = ph (slots (pool' ! leaf ln') ! i)
            \<and> (if hashes ln' ! i = 0 then keys ln' ! i = []
               else c_str (keys ln' ! i) = key_string (slots (pool' ! leaf ln') ! i))"
    proof (cases "i = s")
      case True
      with c h sh s len a show ?thesis
        by (auto simp: ln' pool' l put_slot_nth key_string_set ph_set)
    next
      case False
      with mi sh s len a i show ?thesis
        by (auto simp: ln' pool' l put_slot_nth)
    qed
  qed
  with a l shp show ?thesis
    by (simp add: mirrors_def pool' length_put_slot)
qed

lemma unique_fill:
  assumes u: "unique_keys ln" and s: "s < LEAF_KEYS" and sh: "shape (Leaf ln)"
    and c: "hashes ln ! s = 0 \<longrightarrow>
            (\<forall>j < LEAF_KEYS. \<not> (hashes ln ! j = h \<and> c_str (keys ln ! j) = c_str key))"
    and h: "h \<noteq> 0"
    and r: "LeafFillSpecificSlot None ln h key val s pool = (e, ln', pool')"
  shows "unique_keys ln'"
proof (cases "hashes ln ! s = 0")
  case False
  with r have "ln' = ln" by (simp add: fill_results)
  with u show ?thesis by simp
next
  case True
  with r have ln': "ln' = ln\<lparr>hashes := (hashes ln)[s := h], keys := (keys ln)[s := key]\<rparr>"
    by (simp add: fill_results)
  from True c have nm: "\<forall>j < LEAF_KEYS. \<not> (hashes ln ! j = h \<and> c_str (keys ln ! j) = c_str key)"
    by simp
  show ?thesis
    unfolding unique_keys_def
  proof (intro allI impI)
    fix i j
    assume i: "i < LEAF_KEYS" and j: "j < LEAF_KEYS"
      and ij: "i \<noteq> j \<and> hashes ln' ! i \<noteq> 0 \<and> hashes ln' ! i = hashes ln' ! j"
    show "c_str (keys ln' ! i) \<noteq> c_str (keys ln' ! j)"
    proof (cases "i = s")
      case True
      with ij i j s sh nm show ?thesis
        by (auto simp: ln')
    next
      case False
      note ns = this
      show ?thesis
      proof (cases "j = s")
        case True
        with ij i j s sh nm ns show ?thesis
          by (auto simp: ln')
      next
        case False
        with ns ij i j s sh u show ?thesis
          by (auto simp: ln' unique_keys_def)
      qed
    qed
  qed
qed

lemma fill_pool:
  assumes r: "LeafFillSpecificSlot None ln (PearsonHash key) key val s pool = (e, ln', pool')"
    and ok: "pool_ok pool" and a: "leaf ln < length pool"
  shows "e = None \<and> pool_ok pool' \<and> length pool' = length pool
         \<and> (\<forall>b. b \<noteq> leaf ln \<longrightarrow> pool' ! b = pool ! b)"
  using r ok a
  by (auto simp: fill_results pool_ok_put_slot slot_ok_set length_put_slot put_slot_nth)

lemma tree_leaves_Some: "tree_top st = Some t \<Longrightarrow> tree_leaves st = leaves_of t"
  by (simp add: tree_leaves_def)

lemma distinct_leaf_eq:
  "distinct (map leaf ls) \<Longrightarrow> l \<in> set ls \<Longrightarrow> l' \<in> set ls \<Longrightarrow> leaf l = leaf l' \<Longrightarrow> l = l'"
  by (meson distinct_map inj_onD)

lemma engine_inv_update_leaf:
  assumes inv: "engine_inv st" and top: "tree_top st = Some t"
    and p: "path_in t p (Leaf ln)"
    and l: "leaf ln' = leaf ln" and sh: "shape (Leaf ln')"
    and m: "mirrors pool' ln'" and u: "unique_keys ln'"
    and ok: "pool_ok pool'" and len: "length pool' = length (pmpool st)"
    and same: "\<forall>b. b \<noteq> leaf ln \<longrightarrow> pool' ! b = pmpool st ! b"
  shows "engine_inv (st\<lparr>pmpool := pool', tree_top := Some (plug (Leaf ln') p)\<rparr>)"
proof -
  let ?t' = "plug (Leaf ln') p"
  let ?st' = "st\<lparr>pmpool := pool', tree_top := Some ?t'\<rparr>"
  from inv top have sht: "shape t" by (simp add: engine_inv_def shaped_def)
  have lv: "mset (leaves_of ?t') + {#ln#} = mset (leaves_of t) + {#ln'#}"
    using leaves_plug [OF p, of "Leaf ln'"] by simp
  then have "image_mset leaf (mset (leaves_of ?t') + {#ln#}) = image_mset leaf (mset (leaves_of t) + {#ln'#})"
    by simp
  then have addr: "mset (map leaf (leaves_of ?t')) = mset (map leaf (leaves_of t))"
    using l by simp
  from p have ln_in: "ln \<in> set (leaves_of t)"
    using path_in_leaves by fastforce
  from inv top have d: "distinct (map leaf (leaves_of t) @ leaves_prealloc st)"
    and cov: "set (map leaf (leaves_of t)) \<union> set (leaves_prealloc st) = {0..<length (pmpool st)}"
    and old: "\<forall>l \<in> set (leaves_of t). mirrors (pmpool st) l \<and> unique_keys l"
    and pre: "\<forall>a \<in> set (leaves_prealloc st). \<forall>s \<in> set (slots (pmpool st ! a)). ph s = 0"
    by (simp_all add: engine_inv_def tree_leaves_Some)
  from d have dt: "distinct (map leaf (leaves_of t))" by simp
  have a: "shaped ?st'"
    using shape_plug [OF p sht sh] by (simp add: shaped_def)
  have b: "\<forall>x \<in> set (leaves_of ?t'). mirrors pool' x \<and> unique_keys x"
  proof
    fix x assume x: "x \<in> set (leaves_of ?t')"
    then have "x \<in># mset (leaves_of ?t') + {#ln#}" by simp
    with lv have "x \<in># mset (leaves_of t) + {#ln'#}" by simp
    then have cases: "x = ln' \<or> x \<in> set (leaves_of t)" by auto
    show "mirrors pool' x \<and> unique_keys x"
    proof (cases "x = ln'")
      case True
      with m u show ?thesis by simp
    next
      case False
      with cases have xin: "x \<in> set (leaves_of t)" by simp
      have ne: "leaf x \<noteq> leaf ln"
      proof
        assume "leaf x = leaf ln"
        with dt xin ln_in have xl: "x = ln" by (rule distinct_leaf_eq)
        from dt have "distinct (leaves_of t)" by (simp add: distinct_map)
        with ln_in have "count (mset (leaves_of t)) ln = 1"
          by (simp add: distinct_count_atmost_1)
        moreover from lv have "count (mset (leaves_of ?t') + {#ln#}) ln = count (mset (leaves_of t) + {#ln'#}) ln"
          by simp
        moreover from False xl have "ln \<noteq> ln'" by simp
        ultimately have "count (mset (leaves_of ?t')) ln = 0" by simp
        with x xl show False by (simp add: count_eq_zero_iff)
      qed
      from old xin have mx: "mirrors (pmpool st) x" and ux: "unique_keys x" by simp_all
      from ne same have "pool' ! leaf x = pmpool st ! leaf x" by simp
      with mx len have "mirrors pool' x" by (simp add: mirrors_def)
      with ux show ?thesis by simp
    qed
  qed
  have c: "distinct (map leaf (leaves_of ?t') @ leaves_prealloc st)"
  proof -
    have "mset (map leaf (leaves_of ?t') @ leaves_prealloc st) = mset (map leaf (leaves_of t) @ leaves_prealloc st)"
      using addr by simp
    then show ?thesis using d by (metis mset_eq_imp_distinct_iff)
  qed
  have e: "set (map leaf (leaves_of ?t')) \<union> set (leaves_prealloc st) = {0..<length pool'}"
  proof -
    from addr have "set (map leaf (leaves_of ?t')) = set (map leaf (leaves_of t))"
      by (rule mset_eq_setD)
    with cov len show ?thesis by simp
  qed
  have f: "\<forall>a \<in> set (leaves_prealloc st). \<forall>s \<in> set (slots (pool' ! a)). ph s = 0"
  proof
    fix a assume a: "a \<in> set (leaves_prealloc st)"
    from ln_in have "leaf ln \<in> set (map leaf (leaves_of t))" by simp
    with d a have "a \<noteq> leaf ln" by auto
    with same have "pool' ! a = pmpool st ! a" by simp
    with pre a show "\<forall>s \<in> set (slots (pool' ! a)). ph s = 0" by simp
  qed
  from a b c e f ok show ?thesis
    by (simp add: engine_inv_def tree_leaves_def)
qed

section \<open>Put into a slot of the leaf, and Remove\<close>

lemma exec_tx_None: "exec_tx None pool0 (None, v, pool) = (None, v, pool)"
  by (simp add: exec_tx_def)

lemma LeafSearch_leaf:
  assumes inv: "engine_inv st" and ls: "LeafSearch key st = Some (p, ln)"
  obtains t where "tree_top st = Some t" "path_in t p (Leaf ln)" "ln \<in> set (leaves_of t)"
    "mirrors (pmpool st) ln" "unique_keys ln" "shape (Leaf ln)" "shape t"
proof -
  from ls obtain t where top: "tree_top st = Some t"
    by (auto simp: LeafSearch_def split: option.splits)
  with ls have p: "path_in t p (Leaf ln)" by (auto dest: LeafSearch_path_in)
  then have mem: "ln \<in> set (leaves_of t)" using path_in_leaves by fastforce
  from inv top have sht: "shape t" by (simp add: engine_inv_def shaped_def)
  with p have shl: "shape (Leaf ln)" by (auto dest: path_in_shape)
  from inv top mem have "mirrors (pmpool st) ln" "unique_keys ln"
    by (simp_all add: engine_inv_def tree_leaves_Some)
  with top p mem sht shl show thesis by (blast intro: that)
qed

lemma LeafFillSlotForKey_False:
  assumes r: "LeafFillSlotForKey f ln (PearsonHash key) key val pool = (False, rest)"
  shows "(\<forall>j < LEAF_KEYS. hashes ln ! j \<noteq> 0)
         \<and> (\<forall>j < LEAF_KEYS. \<not> (hashes ln ! j = PearsonHash key \<and> c_str (keys ln ! j) = c_str key))"
proof -
  obtain le km where sc: "scan_slots LEAF_KEYS ln (PearsonHash key) key None = (le, km)"
    by (cases "scan_slots LEAF_KEYS ln (PearsonHash key) key None")
  with r have "km = None" "le = None"
    by (auto simp: LeafFillSlotForKey_def split: option.splits)
  with sc have full: "scan_slots LEAF_KEYS ln (PearsonHash key) key None = (None, None)" by simp
  then have a: "\<forall>j < LEAF_KEYS. hashes ln ! j \<noteq> 0" by (rule scan_slots_full)
  from full have "snd (scan_slots LEAF_KEYS ln (PearsonHash key) key None) = None" by simp
  then have "find_slot LEAF_KEYS ln (PearsonHash key) key = None"
    by (simp add: scan_slots_match PearsonHash_nonzero)
  then have b: "\<forall>j < LEAF_KEYS. \<not> (hashes ln ! j = PearsonHash key \<and> c_str (keys ln ! j) = c_str key)"
    by (simp add: find_slot_None strcmp_eq)
  from a b show ?thesis by simp
qed

lemma LeafFillSlotForKey_True:
  assumes r: "LeafFillSlotForKey None ln (PearsonHash key) key val pool = (True, e, ln', pool')"
  obtains s where "s < LEAF_KEYS"
    "LeafFillSpecificSlot None ln (PearsonHash key) key val s pool = (e, ln', pool')"
    "hashes ln ! s = 0 \<or> (hashes ln ! s = PearsonHash key \<and> c_str (keys ln ! s) = c_str key)"
    "hashes ln ! s = 0 \<longrightarrow>
       (\<forall>j < LEAF_KEYS. \<not> (hashes ln ! j = PearsonHash key \<and> c_str (keys ln ! j) = c_str key))"
proof -
  let ?h = "PearsonHash key"
  obtain le km where sc: "scan_slots LEAF_KEYS ln ?h key None = (le, km)"
    by (cases "scan_slots LEAF_KEYS ln ?h key None")
  then have km: "km = find_slot LEAF_KEYS ln ?h key"
    using scan_slots_match [of ?h LEAF_KEYS ln key None] by (simp add: PearsonHash_nonzero)
  show thesis
  proof (cases km)
    case (Some m)
    with km have fs: "find_slot LEAF_KEYS ln ?h key = Some m" by simp
    from find_slot_Some [OF fs] have m: "m < LEAF_KEYS" "hashes ln ! m = ?h"
      "c_str (keys ln ! m) = c_str key"
      by (simp_all add: strcmp_eq)
    from r sc Some have "LeafFillSpecificSlot None ln ?h key val m pool = (e, ln', pool')"
      by (simp add: LeafFillSlotForKey_def fill_results exec_tx_None)
    with m show thesis
      using PearsonHash_nonzero [of key] by (intro that [of m]) simp_all
  next
    case None
    with r sc obtain s where le: "le = Some s"
      by (cases le) (auto simp: LeafFillSlotForKey_def)
    from sc le have "fst (scan_slots LEAF_KEYS ln ?h key None) = Some s" by simp
    from scan_slots_empty [OF this] have s: "s < LEAF_KEYS" "hashes ln ! s = 0" by simp_all
    from None km have "find_slot LEAF_KEYS ln ?h key = None" by simp
    then have nm: "\<forall>j < LEAF_KEYS. \<not> (hashes ln ! j = ?h \<and> c_str (keys ln ! j) = c_str key)"
      by (simp add: find_slot_None strcmp_eq)
    from r sc None le have "LeafFillSpecificSlot None ln ?h key val s pool = (e, ln', pool')"
      by (simp add: LeafFillSlotForKey_def fill_results exec_tx_None)
    with s nm show thesis by (intro that [of s]) simp_all
  qed
qed

lemma Put_fill_inv:
  assumes inv: "engine_inv st" and ls: "LeafSearch key st = Some (p, ln)"
    and r: "LeafFillSlotForKey None ln (PearsonHash key) key val (pmpool st) = (True, e, ln', pool')"
  shows "e = None \<and> engine_inv (st\<lparr>pmpool := pool', tree_top := Some (plug (Leaf ln') p)\<rparr>)"
proof -
  from inv ls obtain t where t: "tree_top st = Some t" "path_in t p (Leaf ln)"
    "mirrors (pmpool st) ln" "unique_keys ln" "shape (Leaf ln)"
    by (rule LeafSearch_leaf)
  from inv have ok: "pool_ok (pmpool st)" by (simp add: engine_inv_def)
  from t(3) have a: "leaf ln < length (pmpool st)" by (simp add: mirrors_def)
  from r obtain s where s: "s < LEAF_KEYS"
    "LeafFillSpecificSlot None ln (PearsonHash key) key val s (pmpool st) = (e, ln', pool')"
    "hashes ln ! s = 0 \<or> (hashes ln ! s = PearsonHash key \<and> c_str (keys ln ! s) = c_str key)"
    "hashes ln ! s = 0 \<longrightarrow>
       (\<forall>j < LEAF_KEYS. \<not> (hashes ln ! j = PearsonHash key \<and> c_str (keys ln ! j) = c_str key))"
    by (rule LeafFillSlotForKey_True)
  have m: "mirrors pool' ln' \<and> leaf ln' = leaf ln \<and> shape (Leaf ln')"
    using t(3) ok s(1) t(5) s(3) PearsonHash_nonzero s(2) by (rule mirrors_fill)
  have u: "unique_keys ln'"
    using t(4) s(1) t(5) s(4) PearsonHash_nonzero s(2) by (rule unique_fill)
  have f: "e = None \<and> pool_ok pool' \<and> length pool' = length (pmpool st)
         \<and> (\<forall>b. b \<noteq> leaf ln \<longrightarrow> pool' ! b = pmpool st ! b)"
    using s(2) ok a by (rule fill_pool)
  have "engine_inv (st\<lparr>pmpool := pool', tree_top := Some (plug (Leaf ln') p)\<rparr>)"
    using inv t(1,2) m u f by (intro engine_inv_update_leaf) blast+
  with f show ?thesis by simp
qed

lemma Remove_results:
  "Remove None key st =
     (case LeafSearch key st of
        None \<Rightarrow> (Inr OK, st)
      | Some (p, ln) \<Rightarrow>
          (case find_slot LEAF_KEYS ln (PearsonHash key) key of
             None \<Rightarrow> (Inr OK, st)
           | Some s \<Rightarrow>
               (Inr OK,
                st\<lparr>tree_top := Some (plug (Leaf (ln\<lparr>hashes := (hashes ln)[s := 0],
                                                     keys := (keys ln)[s := []]\<rparr>)) p),
                   pmpool := put_slot (pmpool st) (leaf ln) s
                               (KVSlot_clear (slots (pmpool st ! leaf ln) ! s))\<rparr>)))"
  by (simp add: Remove_def exec_tx_def Let_def split: option.splits)

lemma Remove_inv:
  assumes inv: "engine_inv st"
  shows "engine_inv (snd (Remove None key st))"
proof (cases "LeafSearch key st")
  case None
  with inv show ?thesis by (simp add: Remove_results)
next
  case (Some pl)
  obtain p ln where pl: "pl = (p, ln)" by (cases pl)
  show ?thesis
  proof (cases "find_slot LEAF_KEYS ln (PearsonHash key) key")
    case None
    with inv Some pl show ?thesis by (simp add: Remove_results)
  next
    case (Some s)
    from find_slot_Some [OF Some] have s: "s < LEAF_KEYS" by simp
    from inv \<open>LeafSearch key st = Some pl\<close> pl obtain t where t: "tree_top st = Some t"
      "path_in t p (Leaf ln)" "mirrors (pmpool st) ln" "unique_keys ln" "shape (Leaf ln)"
      by (auto elim: LeafSearch_leaf)
    from inv have ok: "pool_ok (pmpool st)" by (simp add: engine_inv_def)
    from t(3) have a: "leaf ln < length (pmpool st)" by (simp add: mirrors_def)
    from ok a have len: "length (slots (pmpool st ! leaf ln)) = LEAF_KEYS" by (rule pool_ok_nth)
    let ?ln = "ln\<lparr>hashes := (hashes ln)[s := 0], keys := (keys ln)[s := []]\<rparr>"
    let ?pool = "put_slot (pmpool st) (leaf ln) s (KVSlot_clear (slots (pmpool st ! leaf ln) ! s))"
    have m: "mirrors ?pool ?ln"
      unfolding mirrors_def
    proof (intro conjI allI impI)
      show "leaf ?ln < length ?pool" using a by (simp add: length_put_slot)
    next
      fix i assume i: "i < LEAF_KEYS"
      with t(3) have mi: "hashes ln ! i = ph (slots (pmpool st ! leaf ln) ! i)"
        "if hashes ln ! i = 0 then keys ln ! i = []
         else c_str (keys ln ! i) = key_string (slots (pmpool st ! leaf ln) ! i)"
        by (simp_all add: mirrors_def)
      show "hashes ?ln ! i = ph (slots (?pool ! leaf ?ln) ! i)"
        using mi i s t(5) len a by (cases "i = s") (simp_all add: put_slot_nth ph_clear)
      show "if hashes ?ln ! i = 0 then keys ?ln ! i = []
            else c_str (keys ?ln ! i) = key_string (slots (?pool ! leaf ?ln) ! i)"
        using mi i s t(5) len a by (cases "i = s") (simp_all add: put_slot_nth)
    qed
    have u: "unique_keys ?ln"
      unfolding unique_keys_def
    proof (intro allI impI)
      fix i j
      assume i: "i < LEAF_KEYS" and j: "j < LEAF_KEYS"
        and ij: "i \<noteq> j \<and> hashes ?ln ! i \<noteq> 0 \<and> hashes ?ln ! i = hashes ?ln ! j"
      then have "i \<noteq> s" "j \<noteq> s" using s t(5) by auto
      then have hi: "hashes ?ln ! i = hashes ln ! i" and hj: "hashes ?ln ! j = hashes ln ! j"
        by simp_all
      from ij have "i \<noteq> j \<and> hashes ln ! i \<noteq> 0 \<and> hashes ln ! i = hashes ln ! j"
        unfolding hi hj .
      with i j t(4) have "c_str (keys ln ! i) \<noteq> c_str (keys ln ! j)"
        unfolding unique_keys_def by blast
      with \<open>i \<noteq> s\<close> \<open>j \<noteq> s\<close> show "c_str (keys ?ln ! i) \<noteq> c_str (keys ?ln ! j)"
        by simp
    qed
    have "engine_inv (st\<lparr>pmpool := ?pool, tree_top := Some (plug (Leaf ?ln) p)\<rparr>)"
      using inv t(1,2) _ _ m u
    proof (rule engine_inv_update_leaf)
      show "leaf ?ln = leaf ln" by simp
      show "shape (Leaf ?ln)" using t(5) by simp
      show "pool_ok ?pool" using ok by (simp add: pool_ok_put_slot slot_ok_clear)
      show "length ?pool = length (pmpool st)" by (simp add: length_put_slot)
      show "\<forall>b. b \<noteq> leaf ln \<longrightarrow> ?pool ! b = pmpool st ! b"
        using a by (simp add: put_slot_nth)
    qed
    moreover have "snd (Remove None key st)
       = st\<lparr>pmpool := ?pool, tree_top := Some (plug (Leaf ?ln) p)\<rparr>"
      using \<open>LeafSearch key st = Some pl\<close> pl Some by (simp add: Remove_results)
    ultimately show ?thesis by simp
  qed
qed

section \<open>A new leaf\<close>

lemma mirrors_new:
  assumes b: "b < length pool" and e: "\<forall>s \<in> set (slots (pool ! b)). ph s = 0"
    and len: "length (slots (pool ! b)) = LEAF_KEYS"
  shows "mirrors pool (new_KVLeafNode\<lparr>leaf := b\<rparr>)"
  using assms by (simp add: mirrors_def new_KVLeafNode_def)

lemma unique_new: "unique_keys (new_KVLeafNode\<lparr>leaf := b\<rparr>)"
  by (simp add: unique_keys_def new_KVLeafNode_def)

lemma shape_new: "shape (Leaf (new_KVLeafNode\<lparr>leaf := b\<rparr>))"
  by (simp add: new_KVLeafNode_def)

lemma obtain_leaf_None:
  assumes inv: "engine_inv st"
    and r: "obtain_leaf None (pmpool st) (leaves_prealloc st) = (e, b, pool1, pre1)"
  shows "e = None \<and> pool_ok pool1 \<and> b < length pool1
     \<and> length (pmpool st) \<le> length pool1
     \<and> (\<forall>a < length (pmpool st). pool1 ! a = pmpool st ! a)
     \<and> (\<forall>s \<in> set (slots (pool1 ! b)). ph s = 0)
     \<and> mset [b] + mset pre1 = mset (leaves_prealloc st) + mset [length (pmpool st)..<length pool1]
     \<and> (\<forall>a \<in> set pre1. a \<in> set (leaves_prealloc st))"
proof (cases "leaves_prealloc st = []")
  case False
  with r have eq: "e = None" "b = last (leaves_prealloc st)" "pool1 = pmpool st"
    "pre1 = butlast (leaves_prealloc st)"
    by (simp_all add: obtain_leaf_def)
  from False have bin: "b \<in> set (leaves_prealloc st)" using eq by simp
  with inv have "b \<in> {0..<length (pmpool st)}"
    unfolding engine_inv_def by blast
  then have b: "b < length (pmpool st)" by simp
  from inv bin have emp: "\<forall>s \<in> set (slots (pmpool st ! b)). ph s = 0"
    by (simp add: engine_inv_def)
  from False have "butlast (leaves_prealloc st) @ [last (leaves_prealloc st)] = leaves_prealloc st"
    by simp
  then have "mset (butlast (leaves_prealloc st)) + mset [last (leaves_prealloc st)] = mset (leaves_prealloc st)"
    by (metis mset_append)
  then have ms: "mset [b] + mset pre1 = mset (leaves_prealloc st) + mset [length (pmpool st)..<length pool1]"
    using eq by (simp add: ac_simps)
  have sub: "\<forall>a \<in> set pre1. a \<in> set (leaves_prealloc st)"
    using eq by (auto dest: in_set_butlastD)
  from inv have "pool_ok (pmpool st)" by (simp add: engine_inv_def)
  with eq b emp ms sub show ?thesis by simp
next
  case True
  with r have eq: "e = None" "b = length (pmpool st)" "pool1 = pmpool st @ [empty_leaf]"
    "pre1 = []"
    by (simp_all add: obtain_leaf_def)
  from inv have "pool_ok (pmpool st)" by (simp add: engine_inv_def)
  then have "pool_ok pool1" using eq by (simp add: pool_ok_append)
  moreover have "\<forall>s \<in> set (slots (pool1 ! b)). ph s = 0"
    using eq by (simp add: empty_leaf_def empty_slot_def)
  moreover have "\<forall>a < length (pmpool st). pool1 ! a = pmpool st ! a"
    using eq by (simp add: nth_append)
  ultimately show ?thesis using eq True by simp
qed

lemma LeafSearch_None: "shaped st \<Longrightarrow> LeafSearch key st = None \<Longrightarrow> tree_top st = None"
proof (cases "tree_top st")
  case None
  then show ?thesis by simp
next
  case (Some node)
  assume "shaped st" and "LeafSearch key st = None"
  with Some show ?thesis
    using shape_descend [of node key "[]"] by (simp add: LeafSearch_def shaped_def)
qed

lemma Put_first_inv:
  assumes inv: "engine_inv st" and ls: "LeafSearch key st = None"
  shows "fst (Put None key val st) = OK \<and> engine_inv (snd (Put None key val st))"
proof -
  from inv have "shaped st" by (simp add: engine_inv_def)
  with ls have top: "tree_top st = None"
    by (simp add: LeafSearch_None)
  then have tl: "tree_leaves st = []" by (simp add: tree_leaves_def)
  obtain e b pool1 pre1 where r: "obtain_leaf None (pmpool st) (leaves_prealloc st) = (e, b, pool1, pre1)"
    by (cases "obtain_leaf None (pmpool st) (leaves_prealloc st)")
  from obtain_leaf_None [OF inv r] have o: "e = None" "pool_ok pool1" "b < length pool1"
    "length (pmpool st) \<le> length pool1"
    "\<forall>a < length (pmpool st). pool1 ! a = pmpool st ! a"
    "\<forall>s \<in> set (slots (pool1 ! b)). ph s = 0"
    "mset [b] + mset pre1 = mset (leaves_prealloc st) + mset [length (pmpool st)..<length pool1]"
    "\<forall>a \<in> set pre1. a \<in> set (leaves_prealloc st)"
    by simp_all
  let ?ln0 = "new_KVLeafNode\<lparr>leaf := b\<rparr>"
  obtain e2 ln' pool2 where f: "LeafFillSpecificSlot None ?ln0 (PearsonHash key) key val 0 pool1 = (e2, ln', pool2)"
    by (cases "LeafFillSpecificSlot None ?ln0 (PearsonHash key) key val 0 pool1")
  from o(2,3) have len: "length (slots (pool1 ! b)) = LEAF_KEYS" by (rule pool_ok_nth)
  have m0: "mirrors pool1 ?ln0" using o(3,6) len by (rule mirrors_new)
  have z: "0 < LEAF_KEYS" by (simp add: LEAF_KEYS_def)
  have h0: "hashes ?ln0 ! 0 = 0" using z by (simp add: new_KVLeafNode_def)
  have m: "mirrors pool2 ln' \<and> leaf ln' = leaf ?ln0 \<and> shape (Leaf ln')"
    using m0 o(2) z shape_new _ PearsonHash_nonzero f
    by (rule mirrors_fill) (use h0 in simp)
  have u: "unique_keys ln'"
    using unique_new z shape_new _ PearsonHash_nonzero f
    by (rule unique_fill) (simp add: new_KVLeafNode_def PearsonHash_nonzero)
  have fp: "e2 = None \<and> pool_ok pool2 \<and> length pool2 = length pool1
         \<and> (\<forall>c. c \<noteq> leaf ?ln0 \<longrightarrow> pool2 ! c = pool1 ! c)"
    using f o(2) by (rule fill_pool) (simp add: o(3))
  have res: "Put None key val st
      = (OK, st\<lparr>pmpool := pool2, leaves_prealloc := pre1, tree_top := Some (Leaf ln')\<rparr>)"
    using ls r o(1) f fp by (simp add: Put_def Let_def exec_tx_def)
  let ?st' = "st\<lparr>pmpool := pool2, leaves_prealloc := pre1, tree_top := Some (Leaf ln')\<rparr>"
  from inv tl have d: "distinct (leaves_prealloc st)"
    and cov: "set (leaves_prealloc st) = {0..<length (pmpool st)}"
    and pre: "\<forall>a \<in> set (leaves_prealloc st). \<forall>s \<in> set (slots (pmpool st ! a)). ph s = 0"
    by (simp_all add: engine_inv_def)
  have lb: "leaf ln' = b" using m by simp
  have ms: "mset (b # pre1) = mset (leaves_prealloc st @ [length (pmpool st)..<length pool1])"
    using o(7) by simp
  have dd: "distinct (leaves_prealloc st @ [length (pmpool st)..<length pool1])"
    using d cov by auto
  have d': "distinct (b # pre1)"
    using ms dd by (metis mset_eq_imp_distinct_iff)
  have cov': "set (b # pre1) = {0..<length pool2}"
  proof -
    from ms have "set (b # pre1) = set (leaves_prealloc st @ [length (pmpool st)..<length pool1])"
      by (rule mset_eq_setD)
    with cov o(4) fp show ?thesis by auto
  qed
  have pre': "\<forall>a \<in> set pre1. \<forall>s \<in> set (slots (pool2 ! a)). ph s = 0"
  proof
    fix a assume a: "a \<in> set pre1"
    with d' have "a \<noteq> b" by auto
    with fp have "pool2 ! a = pool1 ! a" by simp
    moreover from a o(8) have ain: "a \<in> set (leaves_prealloc st)" by simp
    moreover from ain cov have "a < length (pmpool st)" by auto
    ultimately have "pool2 ! a = pmpool st ! a" using o(5) by simp
    with pre ain show "\<forall>s \<in> set (slots (pool2 ! a)). ph s = 0" by simp
  qed
  have "engine_inv ?st'"
    using fp m u d' cov' pre' lb
    by (simp add: engine_inv_def shaped_def tree_leaves_def)
  with res show ?thesis by simp
qed

section \<open>Moving the slots of a split\<close>

lemma length_swap_slots: "length (swap_slots pool x y i) = length pool"
  by (simp add: swap_slots_def Let_def length_put_slot)

lemma swap_slots_nth:
  "x \<noteq> y \<Longrightarrow> x < length pool \<Longrightarrow> y < length pool \<Longrightarrow>
     swap_slots pool x y i ! c =
       (if c = x then (pool ! x)\<lparr>slots := (slots (pool ! x))[i := slots (pool ! y) ! i]\<rparr>
        else if c = y then (pool ! y)\<lparr>slots := (slots (pool ! y))[i := slots (pool ! x) ! i]\<rparr>
        else pool ! c)"
  by (simp add: swap_slots_def Let_def put_slot_def)

lemma moved_Suc:
  "moved sk ln (Suc n) i \<longleftrightarrow> moved sk ln n i \<or> (i = n \<and> strcmp (keys ln ! n) sk > 0)"
  by (auto simp: moved_def less_Suc_eq)

lemma moved_update:
  "moved sk (ln\<lparr>hashes := hs, keys := (keys ln)[n := k]\<rparr>) n i \<longleftrightarrow> moved sk ln n i"
  by (auto simp: moved_def)

lemma move_slots_struct:
  assumes "leaf ln \<noteq> leaf nln" "leaf ln < length pool" "leaf nln < length pool"
  shows "leaf (fst (move_slots n sk ln nln pool)) = leaf ln
     \<and> leaf (fst (snd (move_slots n sk ln nln pool))) = leaf nln
     \<and> length (hashes (fst (move_slots n sk ln nln pool))) = length (hashes ln)
     \<and> length (keys (fst (move_slots n sk ln nln pool))) = length (keys ln)
     \<and> length (hashes (fst (snd (move_slots n sk ln nln pool)))) = length (hashes nln)
     \<and> length (keys (fst (snd (move_slots n sk ln nln pool)))) = length (keys nln)
     \<and> length (snd (snd (move_slots n sk ln nln pool))) = length pool
     \<and> (\<forall>c. c \<noteq> leaf ln \<and> c \<noteq> leaf nln \<longrightarrow> snd (snd (move_slots n sk ln nln pool)) ! c = pool ! c)
     \<and> length (slots (snd (snd (move_slots n sk ln nln pool)) ! leaf ln)) = length (slots (pool ! leaf ln))
     \<and> length (slots (snd (snd (move_slots n sk ln nln pool)) ! leaf nln)) = length (slots (pool ! leaf nln))"
  using assms
proof (induction n arbitrary: ln nln pool)
  case 0
  then show ?case by simp
next
  case (Suc n)
  show ?case
  proof (cases "strcmp (keys ln ! n) sk > 0")
    case False
    with Suc.IH [OF Suc.prems] show ?thesis by simp
  next
    case True
    let ?ln = "ln\<lparr>hashes := (hashes ln)[n := 0], keys := (keys ln)[n := []]\<rparr>"
    let ?nln = "nln\<lparr>hashes := (hashes nln)[n := hashes ln ! n], keys := (keys nln)[n := keys ln ! n]\<rparr>"
    let ?pool = "swap_slots pool (leaf nln) (leaf ln) n"
    have p: "leaf ?ln \<noteq> leaf ?nln" "leaf ?ln < length ?pool" "leaf ?nln < length ?pool"
      using Suc.prems by (simp_all add: length_swap_slots)
    have sw: "\<And>c. ?pool ! c =
       (if c = leaf nln then (pool ! leaf nln)\<lparr>slots := (slots (pool ! leaf nln))[n := slots (pool ! leaf ln) ! n]\<rparr>
        else if c = leaf ln then (pool ! leaf ln)\<lparr>slots := (slots (pool ! leaf ln))[n := slots (pool ! leaf nln) ! n]\<rparr>
        else pool ! c)"
      using Suc.prems by (intro swap_slots_nth) auto
    from Suc.IH [OF p] True Suc.prems show ?thesis
      by (simp add: length_swap_slots sw)
  qed
qed

lemma move_slots_old:
  assumes "n \<le> length (hashes ln)" "n \<le> length (keys ln)"
  shows "hashes (fst (move_slots n sk ln nln pool)) ! i = (if moved sk ln n i then 0 else hashes ln ! i)
     \<and> keys (fst (move_slots n sk ln nln pool)) ! i = (if moved sk ln n i then [] else keys ln ! i)"
  using assms
proof (induction n arbitrary: ln nln pool)
  case 0
  then show ?case by (simp add: moved_def)
next
  case (Suc n)
  show ?case
  proof (cases "strcmp (keys ln ! n) sk > 0")
    case False
    with Suc.IH [of ln nln pool] Suc.prems show ?thesis by (simp add: moved_Suc)
  next
    case True
    let ?ln = "ln\<lparr>hashes := (hashes ln)[n := 0], keys := (keys ln)[n := []]\<rparr>"
    let ?nln = "nln\<lparr>hashes := (hashes nln)[n := hashes ln ! n], keys := (keys nln)[n := keys ln ! n]\<rparr>"
    let ?pool = "swap_slots pool (leaf nln) (leaf ln) n"
    have "n \<le> length (hashes ?ln)" "n \<le> length (keys ?ln)" using Suc.prems by simp_all
    from Suc.IH [OF this, of ?nln ?pool] True Suc.prems show ?thesis
      by (cases "i = n") (auto simp: moved_Suc moved_update moved_def)
  qed
qed

lemma move_slots_new:
  assumes "n \<le> length (hashes nln)" "n \<le> length (keys nln)"
  shows "hashes (fst (snd (move_slots n sk ln nln pool))) ! i
           = (if moved sk ln n i then hashes ln ! i else hashes nln ! i)
     \<and> keys (fst (snd (move_slots n sk ln nln pool))) ! i
           = (if moved sk ln n i then keys ln ! i else keys nln ! i)"
  using assms
proof (induction n arbitrary: ln nln pool)
  case 0
  then show ?case by (simp add: moved_def)
next
  case (Suc n)
  show ?case
  proof (cases "strcmp (keys ln ! n) sk > 0")
    case False
    with Suc.IH [of nln ln pool] Suc.prems show ?thesis by (simp add: moved_Suc)
  next
    case True
    let ?ln = "ln\<lparr>hashes := (hashes ln)[n := 0], keys := (keys ln)[n := []]\<rparr>"
    let ?nln = "nln\<lparr>hashes := (hashes nln)[n := hashes ln ! n], keys := (keys nln)[n := keys ln ! n]\<rparr>"
    let ?pool = "swap_slots pool (leaf nln) (leaf ln) n"
    have "n \<le> length (hashes ?nln)" "n \<le> length (keys ?nln)" using Suc.prems by simp_all
    from Suc.IH [OF this, of ?ln ?pool] True Suc.prems show ?thesis
      by (cases "i = n") (auto simp: moved_Suc moved_update moved_def)
  qed
qed

lemma move_slots_pool:
  assumes "leaf ln \<noteq> leaf nln" "leaf ln < length pool" "leaf nln < length pool"
    "n \<le> length (slots (pool ! leaf ln))" "n \<le> length (slots (pool ! leaf nln))"
  shows "slots (snd (snd (move_slots n sk ln nln pool)) ! leaf ln) ! i
           = (if moved sk ln n i then slots (pool ! leaf nln) ! i else slots (pool ! leaf ln) ! i)
     \<and> slots (snd (snd (move_slots n sk ln nln pool)) ! leaf nln) ! i
           = (if moved sk ln n i then slots (pool ! leaf ln) ! i else slots (pool ! leaf nln) ! i)"
  using assms
proof (induction n arbitrary: ln nln pool)
  case 0
  then show ?case by (simp add: moved_def)
next
  case (Suc n)
  show ?case
  proof (cases "strcmp (keys ln ! n) sk > 0")
    case False
    with Suc.IH [of ln nln pool] Suc.prems show ?thesis by (simp add: moved_Suc)
  next
    case True
    let ?ln = "ln\<lparr>hashes := (hashes ln)[n := 0], keys := (keys ln)[n := []]\<rparr>"
    let ?nln = "nln\<lparr>hashes := (hashes nln)[n := hashes ln ! n], keys := (keys nln)[n := keys ln ! n]\<rparr>"
    let ?pool = "swap_slots pool (leaf nln) (leaf ln) n"
    have sw: "\<And>c. ?pool ! c =
       (if c = leaf nln then (pool ! leaf nln)\<lparr>slots := (slots (pool ! leaf nln))[n := slots (pool ! leaf ln) ! n]\<rparr>
        else if c = leaf ln then (pool ! leaf ln)\<lparr>slots := (slots (pool ! leaf ln))[n := slots (pool ! leaf nln) ! n]\<rparr>
        else pool ! c)"
      using Suc.prems by (intro swap_slots_nth) auto
    have p: "leaf ?ln \<noteq> leaf ?nln" "leaf ?ln < length ?pool" "leaf ?nln < length ?pool"
      "n \<le> length (slots (?pool ! leaf ?ln))" "n \<le> length (slots (?pool ! leaf ?nln))"
      using Suc.prems by (simp_all add: length_swap_slots sw)
    from Suc.IH [OF p] True Suc.prems show ?thesis
      by (cases "i = n") (auto simp: moved_Suc moved_update sw moved_def)
  qed
qed

section \<open>The body of a split\<close>

lemma pool_okI:
  assumes "\<And>c. c < length pool \<Longrightarrow> length (slots (pool ! c)) = LEAF_KEYS"
    and "\<And>c i. c < length pool \<Longrightarrow> i < LEAF_KEYS \<Longrightarrow> slot_ok (slots (pool ! c) ! i)"
  shows "pool_ok pool"
  unfolding pool_ok_def
proof (intro ballI conjI)
  fix lf assume "lf \<in> set pool"
  then obtain c where c: "c < length pool" "lf = pool ! c" by (auto simp: in_set_conv_nth)
  with assms(1) show len: "length (slots lf) = LEAF_KEYS" by simp
  fix s assume "s \<in> set (slots lf)"
  then obtain i where "i < length (slots lf)" "s = slots lf ! i" by (auto simp: in_set_conv_nth)
  with len c assms(2) show "slot_ok s" by simp
qed

lemma LeafFillEmptySlot_cases:
  assumes r: "LeafFillEmptySlot None ln h key val pool = (e, ln', pool')"
  obtains "e = None" "ln' = ln" "pool' = pool"
  | t where "t < LEAF_KEYS" "hashes ln ! t = 0"
      "LeafFillSpecificSlot None ln h key val t pool = (e, ln', pool')"
proof (cases "first_empty LEAF_KEYS ln")
  case None
  with r that(1) show thesis by (simp add: LeafFillEmptySlot_def)
next
  case (Some t)
  from first_empty_Some [OF Some] have "t < LEAF_KEYS" "hashes ln ! t = 0" by simp_all
  moreover from r Some have "LeafFillSpecificSlot None ln h key val t pool = (e, ln', pool')"
    by (simp add: LeafFillEmptySlot_def)
  ultimately show thesis by (rule that(2))
qed

lemma LeafFillEmptySlot_inv:
  assumes r: "LeafFillEmptySlot None ln (PearsonHash key) key val pool = (e, ln', pool')"
    and ok: "pool_ok pool" and m: "mirrors pool ln" and u: "unique_keys ln"
    and sh: "shape (Leaf ln)"
    and nm: "\<forall>j < LEAF_KEYS. \<not> (hashes ln ! j = PearsonHash key \<and> c_str (keys ln ! j) = c_str key)"
  shows "e = None \<and> leaf ln' = leaf ln \<and> shape (Leaf ln') \<and> mirrors pool' ln'
     \<and> unique_keys ln' \<and> pool_ok pool' \<and> length pool' = length pool
     \<and> (\<forall>c. c \<noteq> leaf ln \<longrightarrow> pool' ! c = pool ! c)"
  using r
proof (cases rule: LeafFillEmptySlot_cases)
  case 1
  with ok m u sh show ?thesis by simp
next
  case (2 t)
  from m have a: "leaf ln < length pool" by (simp add: mirrors_def)
  have mm: "mirrors pool' ln' \<and> leaf ln' = leaf ln \<and> shape (Leaf ln')"
    using m ok 2(1) sh _ PearsonHash_nonzero 2(3) by (rule mirrors_fill) (simp add: 2(2))
  have uu: "unique_keys ln'"
    using u 2(1) sh _ PearsonHash_nonzero 2(3) by (rule unique_fill) (simp add: nm)
  have ff: "e = None \<and> pool_ok pool' \<and> length pool' = length pool
         \<and> (\<forall>b. b \<noteq> leaf ln \<longrightarrow> pool' ! b = pool ! b)"
    using 2(3) ok a by (rule fill_pool)
  from mm uu ff show ?thesis by simp
qed

lemma mirrors_cong:
  "mirrors pool ln \<Longrightarrow> length pool' = length pool \<Longrightarrow> pool' ! leaf ln = pool ! leaf ln
     \<Longrightarrow> mirrors pool' ln"
  by (simp add: mirrors_def)

lemma move_slots_inv:
  assumes ok: "pool_ok pool" and m: "mirrors pool ln" and u: "unique_keys ln"
    and sh: "shape (Leaf ln)"
    and b: "b < length pool" and ab: "leaf ln \<noteq> b"
    and emp: "\<forall>s \<in> set (slots (pool ! b)). ph s = 0"
    and nm: "\<forall>j < LEAF_KEYS. \<not> (hashes ln ! j = h \<and> c_str (keys ln ! j) = c_str key)"
    and r: "move_slots LEAF_KEYS sk ln (new_KVLeafNode\<lparr>leaf := b\<rparr>) pool = (ln1, nln1, pool1)"
  shows "leaf ln1 = leaf ln \<and> leaf nln1 = b \<and> shape (Leaf ln1) \<and> shape (Leaf nln1)
     \<and> mirrors pool1 ln1 \<and> mirrors pool1 nln1 \<and> unique_keys ln1 \<and> unique_keys nln1
     \<and> pool_ok pool1 \<and> length pool1 = length pool
     \<and> (\<forall>c. c \<noteq> leaf ln \<and> c \<noteq> b \<longrightarrow> pool1 ! c = pool ! c)
     \<and> (\<forall>j < LEAF_KEYS. \<not> (hashes ln1 ! j = h \<and> c_str (keys ln1 ! j) = c_str key) \<or> h = 0)
     \<and> (\<forall>j < LEAF_KEYS. \<not> (hashes nln1 ! j = h \<and> c_str (keys nln1 ! j) = c_str key) \<or> h = 0)"
proof -
  let ?nln = "new_KVLeafNode\<lparr>leaf := b\<rparr>"
  let ?R = "move_slots LEAF_KEYS sk ln ?nln pool"
  from m have a: "leaf ln < length pool" by (simp add: mirrors_def)
  from ok a have la: "length (slots (pool ! leaf ln)) = LEAF_KEYS" by (rule pool_ok_nth)
  from ok b have lb: "length (slots (pool ! b)) = LEAF_KEYS" by (rule pool_ok_nth)
  from r have R: "ln1 = fst ?R" "nln1 = fst (snd ?R)" "pool1 = snd (snd ?R)" by simp_all
  have st: "leaf ln1 = leaf ln" "leaf nln1 = b"
    "length (hashes ln1) = length (hashes ln)" "length (keys ln1) = length (keys ln)"
    "length (hashes nln1) = LEAF_KEYS" "length (keys nln1) = LEAF_KEYS"
    "length pool1 = length pool"
    "\<forall>c. c \<noteq> leaf ln \<and> c \<noteq> b \<longrightarrow> pool1 ! c = pool ! c"
    "length (slots (pool1 ! leaf ln)) = LEAF_KEYS" "length (slots (pool1 ! b)) = LEAF_KEYS"
    using move_slots_struct [of ln ?nln pool LEAF_KEYS sk] ab a b la lb
    unfolding R by (simp_all add: new_KVLeafNode_def)
  have old: "\<And>i. hashes ln1 ! i = (if moved sk ln LEAF_KEYS i then 0 else hashes ln ! i)"
    "\<And>i. keys ln1 ! i = (if moved sk ln LEAF_KEYS i then [] else keys ln ! i)"
    using move_slots_old [of LEAF_KEYS ln sk ?nln pool] sh unfolding R by simp_all
  have new: "\<And>i. hashes nln1 ! i = (if moved sk ln LEAF_KEYS i then hashes ln ! i else hashes ?nln ! i)"
    "\<And>i. keys nln1 ! i = (if moved sk ln LEAF_KEYS i then keys ln ! i else keys ?nln ! i)"
    using move_slots_new [of LEAF_KEYS ?nln sk ln pool] unfolding R
    by (simp_all add: new_KVLeafNode_def)
  have pl: "\<And>i. slots (pool1 ! leaf ln) ! i
           = (if moved sk ln LEAF_KEYS i then slots (pool ! b) ! i else slots (pool ! leaf ln) ! i)"
    "\<And>i. slots (pool1 ! b) ! i
           = (if moved sk ln LEAF_KEYS i then slots (pool ! leaf ln) ! i else slots (pool ! b) ! i)"
    using move_slots_pool [of ln ?nln pool LEAF_KEYS sk] ab a b la lb unfolding R by simp_all
  have empb: "\<And>i. i < LEAF_KEYS \<Longrightarrow> ph (slots (pool ! b) ! i) = 0"
    using emp lb by simp
  have mi: "\<And>i. i < LEAF_KEYS \<Longrightarrow> hashes ln ! i = ph (slots (pool ! leaf ln) ! i)"
    "\<And>i. i < LEAF_KEYS \<Longrightarrow> (if hashes ln ! i = 0 then keys ln ! i = []
               else c_str (keys ln ! i) = key_string (slots (pool ! leaf ln) ! i))"
    using m by (simp_all add: mirrors_def)
  have m1: "mirrors pool1 ln1"
    unfolding mirrors_def
  proof (intro conjI allI impI)
    show "leaf ln1 < length pool1" using st a by simp
    fix i assume i: "i < LEAF_KEYS"
    show "hashes ln1 ! i = ph (slots (pool1 ! leaf ln1) ! i)"
      using mi(1) [OF i] empb [OF i] by (simp add: st old pl)
    show "if hashes ln1 ! i = 0 then keys ln1 ! i = []
          else c_str (keys ln1 ! i) = key_string (slots (pool1 ! leaf ln1) ! i)"
      using mi(2) [OF i] by (simp add: st old pl)
  qed
  have m2: "mirrors pool1 nln1"
    unfolding mirrors_def
  proof (intro conjI allI impI)
    show "leaf nln1 < length pool1" using st b by simp
    fix i assume i: "i < LEAF_KEYS"
    show "hashes nln1 ! i = ph (slots (pool1 ! leaf nln1) ! i)"
      using mi(1) [OF i] empb [OF i] i by (simp add: st new pl new_KVLeafNode_def)
    show "if hashes nln1 ! i = 0 then keys nln1 ! i = []
          else c_str (keys nln1 ! i) = key_string (slots (pool1 ! leaf nln1) ! i)"
      using mi(2) [OF i] i by (simp add: st new pl new_KVLeafNode_def)
  qed
  have u1: "unique_keys ln1"
    unfolding unique_keys_def
  proof (intro allI impI)
    fix i j assume i: "i < LEAF_KEYS" and j: "j < LEAF_KEYS"
      and ij: "i \<noteq> j \<and> hashes ln1 ! i \<noteq> 0 \<and> hashes ln1 ! i = hashes ln1 ! j"
    then have "i \<noteq> j \<and> hashes ln ! i \<noteq> 0 \<and> hashes ln ! i = hashes ln ! j"
      and "keys ln1 ! i = keys ln ! i" and "keys ln1 ! j = keys ln ! j"
      by (auto simp: old split: if_splits)
    with u i j show "c_str (keys ln1 ! i) \<noteq> c_str (keys ln1 ! j)"
      unfolding unique_keys_def by metis
  qed
  have u2: "unique_keys nln1"
    unfolding unique_keys_def
  proof (intro allI impI)
    fix i j assume i: "i < LEAF_KEYS" and j: "j < LEAF_KEYS"
      and ij: "i \<noteq> j \<and> hashes nln1 ! i \<noteq> 0 \<and> hashes nln1 ! i = hashes nln1 ! j"
    then have "i \<noteq> j \<and> hashes ln ! i \<noteq> 0 \<and> hashes ln ! i = hashes ln ! j"
      and "keys nln1 ! i = keys ln ! i" and "keys nln1 ! j = keys ln ! j"
      by (auto simp: new new_KVLeafNode_def split: if_splits)
    with u i j show "c_str (keys nln1 ! i) \<noteq> c_str (keys nln1 ! j)"
      unfolding unique_keys_def by metis
  qed
  have ok1: "pool_ok pool1"
  proof (rule pool_okI)
    fix c assume c: "c < length pool1"
    show "length (slots (pool1 ! c)) = LEAF_KEYS"
      using st c ok by (cases "c = leaf ln \<or> c = b") (auto simp: pool_ok_nth)
    fix i assume i: "i < LEAF_KEYS"
    show "slot_ok (slots (pool1 ! c) ! i)"
    proof (cases "c = leaf ln \<or> c = b")
      case True
      then show ?thesis
        using pool_ok_slot [OF ok a i] pool_ok_slot [OF ok b i] by (auto simp: pl)
    next
      case False
      with st c have "pool1 ! c = pool ! c" "c < length pool" by simp_all
      with ok i show ?thesis by (simp add: pool_ok_slot)
    qed
  qed
  have n1: "\<forall>j < LEAF_KEYS. \<not> (hashes ln1 ! j = h \<and> c_str (keys ln1 ! j) = c_str key) \<or> h = 0"
    using nm by (auto simp: old)
  have n2: "\<forall>j < LEAF_KEYS. \<not> (hashes nln1 ! j = h \<and> c_str (keys nln1 ! j) = c_str key) \<or> h = 0"
    using nm by (auto simp: new new_KVLeafNode_def)
  have s1: "shape (Leaf ln1)" using st sh by simp
  have s2: "shape (Leaf nln1)" using st by simp
  from st(1,2,7,8) s1 s2 m1 m2 u1 u2 ok1 n1 n2 show ?thesis by blast
qed

lemma split_body_inv:
  assumes ok: "pool_ok pool" and m: "mirrors pool ln" and u: "unique_keys ln"
    and sh: "shape (Leaf ln)"
    and b: "b < length pool" and ab: "leaf ln \<noteq> b"
    and emp: "\<forall>s \<in> set (slots (pool ! b)). ph s = 0"
    and nm: "\<forall>j < LEAF_KEYS. \<not> (hashes ln ! j = PearsonHash key \<and> c_str (keys ln ! j) = c_str key)"
    and r: "split_body None sk ln (new_KVLeafNode\<lparr>leaf := b\<rparr>) (PearsonHash key) key val pool
              = (e, (ln3, nln3), pool3)"
  shows "e = None \<and> leaf ln3 = leaf ln \<and> leaf nln3 = b \<and> shape (Leaf ln3) \<and> shape (Leaf nln3)
     \<and> mirrors pool3 ln3 \<and> mirrors pool3 nln3 \<and> unique_keys ln3 \<and> unique_keys nln3
     \<and> pool_ok pool3 \<and> length pool3 = length pool
     \<and> (\<forall>c. c \<noteq> leaf ln \<and> c \<noteq> b \<longrightarrow> pool3 ! c = pool ! c)"
proof -
  obtain ln1 nln1 pool1 where mv:
    "move_slots LEAF_KEYS sk ln (new_KVLeafNode\<lparr>leaf := b\<rparr>) pool = (ln1, nln1, pool1)"
    by (cases "move_slots LEAF_KEYS sk ln (new_KVLeafNode\<lparr>leaf := b\<rparr>) pool")
  from move_slots_inv [OF ok m u sh b ab emp nm mv]
  have i: "leaf ln1 = leaf ln" "leaf nln1 = b" "shape (Leaf ln1)" "shape (Leaf nln1)"
    "mirrors pool1 ln1" "mirrors pool1 nln1" "unique_keys ln1" "unique_keys nln1"
    "pool_ok pool1" "length pool1 = length pool"
    "\<forall>c. c \<noteq> leaf ln \<and> c \<noteq> b \<longrightarrow> pool1 ! c = pool ! c"
    "\<forall>j < LEAF_KEYS. \<not> (hashes ln1 ! j = PearsonHash key \<and> c_str (keys ln1 ! j) = c_str key)"
    "\<forall>j < LEAF_KEYS. \<not> (hashes nln1 ! j = PearsonHash key \<and> c_str (keys nln1 ! j) = c_str key)"
    by (simp_all add: PearsonHash_nonzero)
  show ?thesis
  proof (cases "strcmp key sk > 0")
    case True
    obtain e' n' p' where f: "LeafFillEmptySlot None nln1 (PearsonHash key) key val pool1 = (e', n', p')"
      by (cases "LeafFillEmptySlot None nln1 (PearsonHash key) key val pool1")
    with r mv True have eq: "e = e'" "ln3 = ln1" "nln3 = n'" "pool3 = p'"
      by (simp_all add: split_body_def)
    from LeafFillEmptySlot_inv [OF f i(9) i(6) i(8) i(4) i(13)]
    have g: "e' = None" "leaf n' = leaf nln1" "shape (Leaf n')" "mirrors p' n'"
      "unique_keys n'" "pool_ok p'" "length p' = length pool1"
      "\<forall>c. c \<noteq> leaf nln1 \<longrightarrow> p' ! c = pool1 ! c"
      by simp_all
    have "mirrors p' ln1"
      using i(5) g(7) by (rule mirrors_cong) (use g(8) i(1,2) ab in simp)
    with eq g i show ?thesis by simp
  next
    case False
    obtain e' n' p' where f: "LeafFillEmptySlot None ln1 (PearsonHash key) key val pool1 = (e', n', p')"
      by (cases "LeafFillEmptySlot None ln1 (PearsonHash key) key val pool1")
    with r mv False have eq: "e = e'" "ln3 = n'" "nln3 = nln1" "pool3 = p'"
      by (simp_all add: split_body_def)
    from LeafFillEmptySlot_inv [OF f i(9) i(5) i(7) i(3) i(12)]
    have g: "e' = None" "leaf n' = leaf ln1" "shape (Leaf n')" "mirrors p' n'"
      "unique_keys n'" "pool_ok p'" "length p' = length pool1"
      "\<forall>c. c \<noteq> leaf ln1 \<longrightarrow> p' ! c = pool1 ! c"
      by simp_all
    have "mirrors p' nln1"
      using i(6) g(7) by (rule mirrors_cong) (use g(8) i(1,2) ab in simp)
    with eq g i show ?thesis by simp
  qed
qed

lemma distinct_append_fresh:
  "distinct xs \<Longrightarrow> set xs = {0..<n} \<Longrightarrow> distinct (xs @ [n..<m])"
  by auto

lemma engine_inv_replace:
  assumes inv: "engine_inv st" and top: "tree_top st = Some t"
    and ln_in: "ln \<in> set (leaves_of t)"
    and lv: "mset (leaves_of t') + {#ln#} = mset (leaves_of t) + mset new"
    and sh: "shape t'"
    and new: "\<forall>x \<in> set new. mirrors pool' x \<and> unique_keys x"
    and addr: "mset (map leaf new) + mset pre'
                 = {#leaf ln#} + mset (leaves_prealloc st) + mset [length (pmpool st)..<length pool']"
    and ok: "pool_ok pool'" and len: "length (pmpool st) \<le> length pool'"
    and same: "\<forall>c < length (pmpool st). c \<notin> leaf ` set new \<longrightarrow> pool' ! c = pmpool st ! c"
    and pre: "\<forall>a \<in> set pre'. \<forall>s \<in> set (slots (pool' ! a)). ph s = 0"
  shows "engine_inv (st\<lparr>pmpool := pool', leaves_prealloc := pre', tree_top := Some t'\<rparr>)"
proof -
  from inv top have d: "distinct (map leaf (leaves_of t) @ leaves_prealloc st)"
    and cov: "set (map leaf (leaves_of t)) \<union> set (leaves_prealloc st) = {0..<length (pmpool st)}"
    and old: "\<forall>l \<in> set (leaves_of t). mirrors (pmpool st) l \<and> unique_keys l"
    by (simp_all add: engine_inv_def tree_leaves_Some)
  from d have dt: "distinct (map leaf (leaves_of t))" by simp
  have "image_mset leaf (mset (leaves_of t') + {#ln#}) = image_mset leaf (mset (leaves_of t) + mset new)"
    using lv by simp
  then have "mset (map leaf (leaves_of t')) + {#leaf ln#} + mset pre'
      = mset (map leaf (leaves_of t)) + (mset (map leaf new) + mset pre')"
    by (simp add: ac_simps)
  also have "\<dots> = mset (map leaf (leaves_of t)) + mset (leaves_prealloc st)
      + mset [length (pmpool st)..<length pool'] + {#leaf ln#}"
    using addr by (simp add: ac_simps)
  finally have am: "mset (map leaf (leaves_of t') @ pre')
      = mset ((map leaf (leaves_of t) @ leaves_prealloc st) @ [length (pmpool st)..<length pool'])"
    by simp
  have "distinct ((map leaf (leaves_of t) @ leaves_prealloc st) @ [length (pmpool st)..<length pool'])"
    using d by (rule distinct_append_fresh) (use cov in simp)
  with am have c: "distinct (map leaf (leaves_of t') @ pre')"
    by (metis mset_eq_imp_distinct_iff)
  from am have "set (map leaf (leaves_of t') @ pre')
      = set ((map leaf (leaves_of t) @ leaves_prealloc st) @ [length (pmpool st)..<length pool'])"
    by (rule mset_eq_setD)
  then have "set (map leaf (leaves_of t')) \<union> set pre'
      = (set (map leaf (leaves_of t)) \<union> set (leaves_prealloc st)) \<union> {length (pmpool st)..<length pool'}"
    by (simp add: Un_assoc)
  also have "\<dots> = {0..<length (pmpool st)} \<union> {length (pmpool st)..<length pool'}"
    using cov by simp
  also have "\<dots> = {0..<length pool'}"
    using len by (rule_tac ivl_disj_un_two(3)) simp_all
  finally have e: "set (map leaf (leaves_of t')) \<union> set pre' = {0..<length pool'}" .
  from c have dt': "distinct (map leaf (leaves_of t'))" by simp
  have b: "\<forall>x \<in> set (leaves_of t'). mirrors pool' x \<and> unique_keys x"
  proof
    fix x assume x: "x \<in> set (leaves_of t')"
    show "mirrors pool' x \<and> unique_keys x"
    proof (cases "x \<in> set new")
      case True
      with new show ?thesis by simp
    next
      case False
      from x have "x \<in># mset (leaves_of t') + {#ln#}" by simp
      with lv have "x \<in># mset (leaves_of t) + mset new" by simp
      with False have xin: "x \<in> set (leaves_of t)" by auto
      have ne: "leaf x \<notin> leaf ` set new"
      proof
        assume "leaf x \<in> leaf ` set new"
        then obtain y where y: "y \<in> set new" "leaf y = leaf x" by auto
        then have "y \<in># mset (leaves_of t) + mset new" by simp
        with lv have "y \<in># mset (leaves_of t') + {#ln#}" by simp
        then have "y \<in> set (leaves_of t') \<or> y = ln" by auto
        then show False
        proof
          assume "y \<in> set (leaves_of t')"
          with dt' x y(2) have "y = x" by (intro distinct_leaf_eq [of "leaves_of t'"]) simp_all
          with y(1) False show False by simp
        next
          assume "y = ln"
          with y(2) dt xin ln_in have "x = ln" by (intro distinct_leaf_eq [of "leaves_of t"]) simp_all
          with \<open>y = ln\<close> y(1) False show False by simp
        qed
      qed
      from old xin have mx: "mirrors (pmpool st) x" and ux: "unique_keys x" by simp_all
      from mx have lx: "leaf x < length (pmpool st)" by (simp add: mirrors_def)
      with ne same have "pool' ! leaf x = pmpool st ! leaf x" by simp
      with mx len lx have "mirrors pool' x" by (simp add: mirrors_def)
      with ux show ?thesis by simp
    qed
  qed
  from b c e ok sh pre show ?thesis
    by (simp add: engine_inv_def tree_leaves_def shaped_def)
qed

section \<open>Put keeps the invariant\<close>

lemma LeafSplitFull_inv:
  assumes inv: "engine_inv st" and ls: "LeafSearch key st = Some (p, ln)"
    and nm: "\<forall>j < LEAF_KEYS. \<not> (hashes ln ! j = PearsonHash key \<and> c_str (keys ln ! j) = c_str key)"
  shows "fst (LeafSplitFull None p ln (PearsonHash key) key val st) = None
     \<and> engine_inv (snd (LeafSplitFull None p ln (PearsonHash key) key val st))"
proof -
  from inv ls obtain t where t: "tree_top st = Some t" "path_in t p (Leaf ln)"
    "ln \<in> set (leaves_of t)" "mirrors (pmpool st) ln" "unique_keys ln" "shape (Leaf ln)" "shape t"
    by (rule LeafSearch_leaf)
  let ?pool = "pmpool st"
  let ?sk = "split_key_of ln key"
  obtain e b pool1 pre1 where r: "obtain_leaf None ?pool (leaves_prealloc st) = (e, b, pool1, pre1)"
    by (cases "obtain_leaf None ?pool (leaves_prealloc st)")
  from obtain_leaf_None [OF inv r] have o: "e = None" "pool_ok pool1" "b < length pool1"
    "length ?pool \<le> length pool1"
    "\<forall>a < length ?pool. pool1 ! a = ?pool ! a"
    "\<forall>s \<in> set (slots (pool1 ! b)). ph s = 0"
    "mset [b] + mset pre1 = mset (leaves_prealloc st) + mset [length ?pool..<length pool1]"
    "\<forall>a \<in> set pre1. a \<in> set (leaves_prealloc st)"
    by simp_all
  from inv t(1) have d: "distinct (map leaf (leaves_of t) @ leaves_prealloc st)"
    and cov: "set (map leaf (leaves_of t)) \<union> set (leaves_prealloc st) = {0..<length ?pool}"
    and pre: "\<forall>a \<in> set (leaves_prealloc st). \<forall>s \<in> set (slots (?pool ! a)). ph s = 0"
    by (simp_all add: engine_inv_def tree_leaves_Some)
  from t(4) have a: "leaf ln < length ?pool" by (simp add: mirrors_def)
  have dd: "distinct ((map leaf (leaves_of t) @ leaves_prealloc st) @ [length ?pool..<length pool1])"
    using d by (rule distinct_append_fresh) (use cov in simp)
  have bmem: "b \<in> set (leaves_prealloc st) \<union> set [length ?pool..<length pool1]"
  proof -
    have "b \<in># mset [b] + mset pre1" by simp
    with o(7) have "b \<in># mset (leaves_prealloc st) + mset [length ?pool..<length pool1]" by simp
    then show ?thesis by (simp only: set_mset_mset [symmetric] set_mset_union)
  qed
  have lin: "leaf ln \<in> set (map leaf (leaves_of t))" using t(3) by simp
  have ab: "leaf ln \<noteq> b"
    using bmem dd lin a by auto
  have bpre: "b \<notin> set pre1"
  proof
    assume "b \<in> set pre1"
    then have "count (mset [b] + mset pre1) b \<ge> 2"
      by (simp add: count_mset_gt_0 Suc_le_eq)
    with o(7) have "count (mset (leaves_prealloc st @ [length ?pool..<length pool1])) b \<ge> 2"
      by simp
    moreover from dd have "distinct (leaves_prealloc st @ [length ?pool..<length pool1])" by simp
    ultimately show False
      by (metis distinct_count_atmost_1 numeral_le_one_iff semiring_norm(69) zero_neq_numeral le_zero_eq)
  qed
  have m1: "mirrors pool1 ln"
    using t(4) o(4,5) a by (simp add: mirrors_def)
  obtain e2 ln3 nln3 pool3 where sb:
    "split_body None ?sk ln (new_KVLeafNode\<lparr>leaf := b\<rparr>) (PearsonHash key) key val pool1
       = (e2, (ln3, nln3), pool3)"
    by (cases "split_body None ?sk ln (new_KVLeafNode\<lparr>leaf := b\<rparr>) (PearsonHash key) key val pool1") auto
  from split_body_inv [OF o(2) m1 t(5) t(6) o(3) ab o(6) nm sb]
  have s: "e2 = None" "leaf ln3 = leaf ln" "leaf nln3 = b" "shape (Leaf ln3)" "shape (Leaf nln3)"
    "mirrors pool3 ln3" "mirrors pool3 nln3" "unique_keys ln3" "unique_keys nln3"
    "pool_ok pool3" "length pool3 = length pool1"
    "\<forall>c. c \<noteq> leaf ln \<and> c \<noteq> b \<longrightarrow> pool3 ! c = pool1 ! c"
    by simp_all
  let ?t' = "InnerUpdateAfterSplit (Leaf ln3) (Leaf nln3) ?sk p"
  have res: "LeafSplitFull None p ln (PearsonHash key) key val st
      = (None, st\<lparr>pmpool := pool3, leaves_prealloc := pre1, tree_top := Some ?t'\<rparr>)"
    using r o(1) sb s(1) by (simp add: LeafSplitFull_def Let_def exec_tx_def)
  have "engine_inv (st\<lparr>pmpool := pool3, leaves_prealloc := pre1, tree_top := Some ?t'\<rparr>)"
    using inv t(1) t(3)
  proof (rule engine_inv_replace [where new = "[ln3, nln3]"])
    show "mset (leaves_of ?t') + {#ln#} = mset (leaves_of t) + mset [ln3, nln3]"
      using IUAS_leaves [OF t(2) t(7), of "Leaf ln3" "Leaf nln3" ?sk] by (simp add: ac_simps)
    show "shape ?t'" using t(2) t(7) s(4) s(5) by (rule IUAS_shape)
    show "\<forall>x \<in> set [ln3, nln3]. mirrors pool3 x \<and> unique_keys x" using s by simp
    show "mset (map leaf [ln3, nln3]) + mset pre1
            = {#leaf ln#} + mset (leaves_prealloc st) + mset [length ?pool..<length pool3]"
      using o(7) s(2,3,11) by (simp add: ac_simps)
    show "pool_ok pool3" by (rule s(10))
    show "length ?pool \<le> length pool3" using o(4) s(11) by simp
    show "\<forall>c < length ?pool. c \<notin> leaf ` set [ln3, nln3] \<longrightarrow> pool3 ! c = ?pool ! c"
      using s(2,3,12) o(5) by simp
    show "\<forall>a \<in> set pre1. \<forall>s \<in> set (slots (pool3 ! a)). ph s = 0"
    proof
      fix x assume x: "x \<in> set pre1"
      with o(8) have xin: "x \<in> set (leaves_prealloc st)" by simp
      with d lin have "x \<noteq> leaf ln" by auto
      moreover from x bpre have "x \<noteq> b" by auto
      moreover from xin cov have "x < length ?pool" by auto
      ultimately have "pool3 ! x = ?pool ! x" using s(12) o(5) by simp
      with pre xin show "\<forall>s \<in> set (slots (pool3 ! x)). ph s = 0" by simp
    qed
  qed
  with res show ?thesis by simp
qed

lemma Put_inv:
  assumes inv: "engine_inv st"
  shows "fst (Put None key val st) = OK \<and> engine_inv (snd (Put None key val st))"
proof (cases "LeafSearch key st")
  case None
  with inv show ?thesis by (rule Put_first_inv)
next
  case (Some pl)
  obtain p ln where pl: "pl = (p, ln)" by (cases pl)
  obtain found e ln' pool' where f:
    "LeafFillSlotForKey None ln (PearsonHash key) key val (pmpool st) = (found, e, ln', pool')"
    by (cases "LeafFillSlotForKey None ln (PearsonHash key) key val (pmpool st)") auto
  show ?thesis
  proof (cases found)
    case True
    from f True have f': "LeafFillSlotForKey None ln (PearsonHash key) key val (pmpool st) = (True, e, ln', pool')"
      by simp
    from Some pl have ls: "LeafSearch key st = Some (p, ln)" by simp
    from Put_fill_inv [OF inv ls f']
    have "e = None" "engine_inv (st\<lparr>pmpool := pool', tree_top := Some (plug (Leaf ln') p)\<rparr>)"
      by simp_all
    with Some pl f True show ?thesis by (simp add: Put_def Let_def)
  next
    case False
    from f False have f': "LeafFillSlotForKey None ln (PearsonHash key) key val (pmpool st) = (False, e, ln', pool')"
      by simp
    from LeafFillSlotForKey_False [OF f']
    have nm: "\<forall>j < LEAF_KEYS. \<not> (hashes ln ! j = PearsonHash key \<and> c_str (keys ln ! j) = c_str key)"
      by simp
    from Some pl have ls: "LeafSearch key st = Some (p, ln)" by simp
    from LeafSplitFull_inv [OF inv ls nm, of val]
    have "fst (LeafSplitFull None p ln (PearsonHash key) key val st) = None"
      "engine_inv (snd (LeafSplitFull None p ln (PearsonHash key) key val st))"
      by simp_all
    with Some pl f False show ?thesis
      by (cases "LeafSplitFull None p ln (PearsonHash key) key val st")
         (simp add: Put_def Let_def)
  qed
qed

section \<open>Recovery of one leaf\<close>

lemma recover_slots_struct:
  "leaf (fst (recover_slots n lf ln mk)) = leaf ln
   \<and> length (hashes (fst (recover_slots n lf ln mk))) = length (hashes ln)
   \<and> length (keys (fst (recover_slots n lf ln mk))) = length (keys ln)"
  by (induction n arbitrary: ln mk) (simp_all add: Let_def)

lemma recover_slots_hashes:
  "n \<le> length (hashes ln) \<Longrightarrow>
     hashes (fst (recover_slots n lf ln mk)) ! i
       = (if i < n then ph (slots lf ! i) else hashes ln ! i)"
proof (induction n arbitrary: ln mk)
  case 0
  then show ?case by simp
next
  case (Suc n)
  then show ?case
    by (cases "i = n") (auto simp: Let_def less_Suc_eq)
qed

lemma recover_slots_keys:
  "n \<le> length (keys ln) \<Longrightarrow> n \<le> length (hashes ln) \<Longrightarrow>
     keys (fst (recover_slots n lf ln mk)) ! i
       = (if i < n \<and> ph (slots lf ! i) \<noteq> 0 then key_string (slots lf ! i) else keys ln ! i)"
proof (induction n arbitrary: ln mk)
  case 0
  then show ?case by simp
next
  case (Suc n)
  then show ?case
    by (cases "i = n") (auto simp: Let_def less_Suc_eq)
qed

lemma recover_slots_None:
  "n \<le> length (hashes ln) \<Longrightarrow>
     snd (recover_slots n lf ln mk) = None \<longleftrightarrow> mk = None \<and> (\<forall>i < n. ph (slots lf ! i) = 0)"
proof (induction n arbitrary: ln mk)
  case 0
  then show ?case by simp
next
  case (Suc n)
  then show ?case
    by (auto simp: Let_def less_Suc_eq split: option.splits)
qed

lemma key_string_nul_free: "nul_free (key_string s)"
proof (cases "KVSlot_key s")
  case None
  then show ?thesis by (simp add: key_string_def nul_free_def)
next
  case (Some buf)
  then show ?thesis by (simp add: key_string_def nul_free_c_str)
qed

lemma c_str_key_string: "c_str (key_string s) = key_string s"
  by (simp add: c_str_nul_free key_string_nul_free)

lemma recovered_props:
  shows "leaf (recovered pool a) = a"
    and "length (hashes (recovered pool a)) = LEAF_KEYS"
    and "length (keys (recovered pool a)) = LEAF_KEYS"
    and "i < LEAF_KEYS \<Longrightarrow> hashes (recovered pool a) ! i = ph (slots (pool ! a) ! i)"
    and "i < LEAF_KEYS \<Longrightarrow> keys (recovered pool a) ! i
           = (if ph (slots (pool ! a) ! i) \<noteq> 0 then key_string (slots (pool ! a) ! i) else [])"
  using recover_slots_struct [of LEAF_KEYS "pool ! a" "new_KVLeafNode\<lparr>leaf := a\<rparr>" None]
    recover_slots_hashes [of LEAF_KEYS "new_KVLeafNode\<lparr>leaf := a\<rparr>" "pool ! a" None i]
    recover_slots_keys [of LEAF_KEYS "new_KVLeafNode\<lparr>leaf := a\<rparr>" "pool ! a" None i]
  by (simp_all add: recovered_def new_KVLeafNode_def)

lemma max_key_of_None:
  "max_key_of pool a = None \<longleftrightarrow> (\<forall>i < LEAF_KEYS. ph (slots (pool ! a) ! i) = 0)"
  using recover_slots_None [of LEAF_KEYS "new_KVLeafNode\<lparr>leaf := a\<rparr>" "pool ! a" None]
  by (simp add: max_key_of_def new_KVLeafNode_def)

lemma recovered_inv:
  assumes a: "a < length pool" and pu: "pool_unique pool"
  shows "mirrors pool (recovered pool a) \<and> unique_keys (recovered pool a)
         \<and> shape (Leaf (recovered pool a))"
proof -
  have m: "mirrors pool (recovered pool a)"
    using a by (simp add: mirrors_def recovered_props c_str_key_string)
  have u: "unique_keys (recovered pool a)"
    unfolding unique_keys_def
  proof (intro allI impI)
    fix i j assume i: "i < LEAF_KEYS" and j: "j < LEAF_KEYS"
      and ij: "i \<noteq> j \<and> hashes (recovered pool a) ! i \<noteq> 0
                \<and> hashes (recovered pool a) ! i = hashes (recovered pool a) ! j"
    then have pij: "i \<noteq> j \<and> ph (slots (pool ! a) ! i) \<noteq> 0
          \<and> ph (slots (pool ! a) ! i) = ph (slots (pool ! a) ! j)"
      using recovered_props(4) [of i pool a] recovered_props(4) [of j pool a] by metis
    with pu a i j have "key_string (slots (pool ! a) ! i) \<noteq> key_string (slots (pool ! a) ! j)"
      unfolding pool_unique_def by blast
    moreover from pij have "ph (slots (pool ! a) ! i) \<noteq> 0" by blast
    moreover from pij have "ph (slots (pool ! a) ! j) \<noteq> 0" by metis
    ultimately show "c_str (keys (recovered pool a) ! i) \<noteq> c_str (keys (recovered pool a) ! j)"
      using i j by (simp add: recovered_props c_str_key_string)
  qed
  show ?thesis using m u by (simp add: recovered_props)
qed

lemma recover_leaf_eq:
  "recover_leaf pool (pre, lv) a =
     (case max_key_of pool a of
        None \<Rightarrow> (pre @ [a], lv)
      | Some m \<Rightarrow> (pre, lv @ [(recovered pool a, m)]))"
  by (simp add: recover_leaf_def max_key_of_def recovered_def split: prod.splits option.splits)

lemma foldl_recover_leaf:
  "foldl (recover_leaf pool) (pre, lv) as =
     (pre @ filter (\<lambda>a. max_key_of pool a = None) as,
      lv @ map (\<lambda>a. (recovered pool a, the (max_key_of pool a)))
             (filter (\<lambda>a. max_key_of pool a \<noteq> None) as))"
proof (induction as arbitrary: pre lv)
  case Nil
  then show ?case by simp
next
  case (Cons a as)
  show ?case
    by (cases "max_key_of pool a") (simp_all add: recover_leaf_eq Cons.IH)
qed

section \<open>Linking the recovered leaves\<close>

lemma leaf_paths_fst: "map fst (leaf_paths node acc) = leaves_of node"
proof (induction node acc rule: leaf_paths.induct)
  case (1 ln path)
  then show ?case by simp
next
  case (2 seps cs path)
  have "map fst (leaf_paths (Inner seps cs) path)
      = concat (map (\<lambda>i. map fst (leaf_paths (cs ! i) ((seps, cs, i) # path))) [0..<length cs])"
    by (simp add: map_concat comp_def)
  also have "\<dots> = concat (map (\<lambda>i. leaves_of (cs ! i)) [0..<length cs])"
    using 2 by (intro arg_cong [where f = concat] map_cong) simp_all
  also have "\<dots> = concat (map leaves_of (map (\<lambda>i. cs ! i) [0..<length cs]))"
    by (simp add: comp_def)
  also have "\<dots> = concat (map leaves_of cs)"
    by (simp only: map_nth)
  finally show ?case by simp
qed

lemma leaf_paths_path_in:
  "(l, p) \<in> set (leaf_paths node acc) \<Longrightarrow> path_in t acc node \<Longrightarrow> path_in t p (Leaf l)"
proof (induction node acc arbitrary: l p rule: leaf_paths.induct)
  case (1 ln path)
  then show ?case by simp
next
  case (2 seps cs path)
  from "2.prems"(1) obtain i where i: "i < length cs"
    and m: "(l, p) \<in> set (leaf_paths (cs ! i) ((seps, cs, i) # path))"
    by auto
  from i "2.prems"(2) have "path_in t ((seps, cs, i) # path) (cs ! i)" by simp
  with "2.IH" [of i l p] i m show ?case by simp
qed

lemma parents_of_path_in:
  assumes mem: "ln \<in> set (leaves_of t)" and d: "distinct (map leaf (leaves_of t))"
  shows "path_in t (parents_of ln t) (Leaf ln)"
proof -
  from mem have "ln \<in> set (map fst (leaf_paths t []))" by (simp add: leaf_paths_fst)
  then obtain p0 where "(ln, p0) \<in> set (leaf_paths t [])" by auto
  then have "\<exists>x \<in> set (leaf_paths t []). (\<lambda>(l, path). leaf l = leaf ln) x" by auto
  then obtain l p where f: "find (\<lambda>(l, path). leaf l = leaf ln) (leaf_paths t []) = Some (l, p)"
    by (cases "find (\<lambda>(l, path). leaf l = leaf ln) (leaf_paths t [])") (auto simp: find_None_iff)
  then have lp: "(l, p) \<in> set (leaf_paths t [])" and eq: "leaf l = leaf ln"
    by (auto simp: find_Some_iff in_set_conv_nth)
  from lp have "l \<in> set (map fst (leaf_paths t []))" by force
  then have "l \<in> set (leaves_of t)" by (simp add: leaf_paths_fst)
  with d mem eq have "l = ln" by (intro distinct_leaf_eq [of "leaves_of t"]) simp_all
  moreover from lp have "path_in t p (Leaf l)" by (rule leaf_paths_path_in) simp
  ultimately show ?thesis using f by (simp add: parents_of_def)
qed

lemma link_leaves_inv:
  assumes "shape node" "fst r \<in> set (leaves_of node)"
    "distinct (map leaf (leaves_of node) @ map (\<lambda>x. leaf (fst x)) rest)"
    "\<forall>x \<in> set rest. shape (Leaf (fst x))"
  shows "shape (link_leaves node r rest)
     \<and> mset (leaves_of (link_leaves node r rest)) = mset (leaves_of node) + mset (map fst rest)"
  using assms
proof (induction rest arbitrary: node r)
  case Nil
  then show ?case by simp
next
  case (Cons nxt rest)
  let ?p = "parents_of (fst r) node"
  let ?t = "InnerUpdateAfterSplit (Leaf (fst r)) (Leaf (fst nxt)) (snd r) ?p"
  from Cons.prems(3) have d: "distinct (map leaf (leaves_of node))" by simp
  have p: "path_in node ?p (Leaf (fst r))"
    using Cons.prems(2) d by (rule parents_of_path_in)
  from p Cons.prems(1) have shr: "shape (Leaf (fst r))" by (rule path_in_shape)
  from Cons.prems(4) have shn: "shape (Leaf (fst nxt))" by simp
  have sh: "shape ?t" using p Cons.prems(1) shr shn by (rule IUAS_shape)
  have "mset (leaves_of ?t) + mset (leaves_of (Leaf (fst r)))
      = mset (leaves_of node) + mset (leaves_of (Leaf (fst r))) + mset (leaves_of (Leaf (fst nxt)))"
    using p Cons.prems(1) by (rule IUAS_leaves)
  then have lv: "mset (leaves_of ?t) = mset (leaves_of node) + {#fst nxt#}" by simp
  have "fst nxt \<in># mset (leaves_of ?t)" unfolding lv by simp
  then have mem: "fst nxt \<in> set (leaves_of ?t)" by simp
  have "image_mset leaf (mset (leaves_of ?t)) = image_mset leaf (mset (leaves_of node) + {#fst nxt#})"
    using lv by simp
  then have "mset (map leaf (leaves_of ?t)) = mset (map leaf (leaves_of node) @ [leaf (fst nxt)])"
    by simp
  then have "mset (map leaf (leaves_of ?t) @ map (\<lambda>x. leaf (fst x)) rest)
      = mset (map leaf (leaves_of node) @ map (\<lambda>x. leaf (fst x)) (nxt # rest))"
    by simp
  with Cons.prems(3) have dd: "distinct (map leaf (leaves_of ?t) @ map (\<lambda>x. leaf (fst x)) rest)"
    by (metis mset_eq_imp_distinct_iff)
  from Cons.prems(4) have "\<forall>x \<in> set rest. shape (Leaf (fst x))" by simp
  from Cons.IH [OF sh mem dd this] lv show ?case by (simp add: ac_simps)
qed

section \<open>Recovery keeps the invariant\<close>

lemma Recover_eq:
  "Recover pool =
     \<lparr>pmpool = pool,
      tree_top = (case recovered_leaves pool of
                    [] \<Rightarrow> None
                  | rleaf # rest \<Rightarrow> Some (link_leaves (Leaf (fst rleaf)) rleaf rest)),
      leaves_prealloc = filter (\<lambda>a. max_key_of pool a = None) (rev [0..<length pool])\<rparr>"
  by (simp add: Recover_def foldl_recover_leaf recovered_leaves_def)

lemma mset_sorted_fst:
  "mset (map fst (sort_by_strcmp snd (map (\<lambda>a. (f a, g a)) as))) = mset (map f as)"
proof -
  have "mset (sort_by_strcmp snd (map (\<lambda>a. (f a, g a)) as)) = mset (map (\<lambda>a. (f a, g a)) as)"
    by (simp add: sort_by_strcmp_sort_key)
  then have "image_mset fst (mset (sort_by_strcmp snd (map (\<lambda>a. (f a, g a)) as)))
      = image_mset fst (mset (map (\<lambda>a. (f a, g a)) as))"
    by (rule arg_cong)
  then show ?thesis by (simp add: multiset.map_comp comp_def)
qed

lemma mset_recovered_leaves:
  "mset (map fst (recovered_leaves pool))
     = mset (map (recovered pool) (filter (\<lambda>a. max_key_of pool a \<noteq> None) (rev [0..<length pool])))"
  unfolding recovered_leaves_def by (rule mset_sorted_fst)

lemma mset_map_leaf_recovered: "mset (map leaf (map (recovered pool) as)) = mset as"
  by (induction as) (simp_all add: recovered_props)

lemma mset_map_leaf_recovered': "mset (map (\<lambda>x. leaf (recovered pool x)) as) = mset as"
  by (induction as) (simp_all add: recovered_props)

lemma mset_recovered_addrs:
  "mset (map (\<lambda>x. leaf (fst x)) (recovered_leaves pool))
     = mset (filter (\<lambda>a. max_key_of pool a \<noteq> None) (rev [0..<length pool]))"
proof -
  have "image_mset leaf (mset (map fst (recovered_leaves pool)))
      = image_mset leaf (mset (map (recovered pool)
          (filter (\<lambda>a. max_key_of pool a \<noteq> None) (rev [0..<length pool]))))"
    by (simp only: mset_recovered_leaves)
  then have "mset (map leaf (map fst (recovered_leaves pool)))
      = mset (map leaf (map (recovered pool)
          (filter (\<lambda>a. max_key_of pool a \<noteq> None) (rev [0..<length pool]))))"
    by (simp only: mset_map)
  then show ?thesis by (simp only: mset_map_leaf_recovered' map_map comp_def)
qed

lemma tree_leaves_Recover:
  assumes ok: "pool_ok pool" and pu: "pool_unique pool"
  shows "shaped (Recover pool)
     \<and> mset (tree_leaves (Recover pool)) = mset (map fst (recovered_leaves pool))"
proof (cases "recovered_leaves pool")
  case Nil
  then show ?thesis by (simp add: Recover_eq shaped_def tree_leaves_def)
next
  case (Cons r rest)
  have d: "distinct (map (\<lambda>x. leaf (fst x)) (recovered_leaves pool))"
  proof -
    have "distinct (filter (\<lambda>a. max_key_of pool a \<noteq> None) (rev [0..<length pool]))" by simp
    with mset_recovered_addrs [of pool] show ?thesis by (metis mset_eq_imp_distinct_iff)
  qed
  have sh: "\<forall>x \<in> set (recovered_leaves pool). shape (Leaf (fst x))"
  proof
    fix x assume "x \<in> set (recovered_leaves pool)"
    then have "fst x \<in># mset (map fst (recovered_leaves pool))" by simp
    then have "fst x \<in> set (map (recovered pool)
          (filter (\<lambda>a. max_key_of pool a \<noteq> None) (rev [0..<length pool])))"
      by (simp only: mset_recovered_leaves set_mset_mset)
    then obtain a where "fst x = recovered pool a" by auto
    then show "shape (Leaf (fst x))" by (simp add: recovered_props)
  qed
  have "shape (link_leaves (Leaf (fst r)) r rest)
     \<and> mset (leaves_of (link_leaves (Leaf (fst r)) r rest))
         = mset (leaves_of (Leaf (fst r))) + mset (map fst rest)"
  proof (rule link_leaves_inv)
    show "shape (Leaf (fst r))" using sh Cons by simp
    show "fst r \<in> set (leaves_of (Leaf (fst r)))" by simp
    show "distinct (map leaf (leaves_of (Leaf (fst r))) @ map (\<lambda>x. leaf (fst x)) rest)"
      using d Cons by simp
    show "\<forall>x \<in> set rest. shape (Leaf (fst x))" using sh Cons by simp
  qed
  with Cons show ?thesis by (simp add: Recover_eq shaped_def tree_leaves_def)
qed

lemma Recover_inv:
  assumes ok: "pool_ok pool" and pu: "pool_unique pool"
  shows "engine_inv (Recover pool)"
proof -
  let ?xs = "rev [0..<length pool]"
  let ?ne = "filter (\<lambda>a. max_key_of pool a \<noteq> None) ?xs"
  let ?em = "filter (\<lambda>a. max_key_of pool a = None) ?xs"
  from tree_leaves_Recover [OF ok pu]
  have sh: "shaped (Recover pool)" by (rule conjunct1)
  from tree_leaves_Recover [OF ok pu]
  have "mset (tree_leaves (Recover pool)) = mset (map fst (recovered_leaves pool))"
    by (rule conjunct2)
  then have lv: "mset (tree_leaves (Recover pool)) = mset (map (recovered pool) ?ne)"
    by (simp only: mset_recovered_leaves)
  then have "image_mset leaf (mset (tree_leaves (Recover pool)))
           = image_mset leaf (mset (map (recovered pool) ?ne))"
    by (rule arg_cong)
  then have "mset (map leaf (tree_leaves (Recover pool))) = mset (map leaf (map (recovered pool) ?ne))"
    by (simp only: mset_map)
  then have addr: "mset (map leaf (tree_leaves (Recover pool))) = mset ?ne"
    by (simp only: mset_map_leaf_recovered)
  have part: "\<And>zs :: nat list. mset (filter (\<lambda>a. max_key_of pool a \<noteq> None) zs)
                 + mset (filter (\<lambda>a. max_key_of pool a = None) zs) = mset zs"
  proof -
    fix zs :: "nat list"
    show "mset (filter (\<lambda>a. max_key_of pool a \<noteq> None) zs)
                 + mset (filter (\<lambda>a. max_key_of pool a = None) zs) = mset zs"
      by (induction zs) simp_all
  qed
  have all: "mset (map leaf (tree_leaves (Recover pool)) @ ?em) = mset ?xs"
    by (simp only: mset_append addr part)
  have a: "\<forall>ln \<in> set (tree_leaves (Recover pool)). mirrors pool ln \<and> unique_keys ln"
  proof
    fix ln assume "ln \<in> set (tree_leaves (Recover pool))"
    then have "ln \<in># mset (tree_leaves (Recover pool))" by simp
    then have "ln \<in> set (map (recovered pool) ?ne)" by (simp only: lv set_mset_mset)
    then obtain c where "c < length pool" "ln = recovered pool c" by auto
    with pu show "mirrors pool ln \<and> unique_keys ln" by (simp add: recovered_inv)
  qed
  have b: "distinct (map leaf (tree_leaves (Recover pool)) @ ?em)"
  proof -
    have "distinct ?xs" by simp
    with all show ?thesis by (metis mset_eq_imp_distinct_iff)
  qed
  have c: "set (map leaf (tree_leaves (Recover pool))) \<union> set ?em = {0..<length pool}"
  proof -
    from all have "set (map leaf (tree_leaves (Recover pool)) @ ?em) = set ?xs"
      by (rule mset_eq_setD)
    then show ?thesis by simp
  qed
  have d: "\<forall>x \<in> set ?em. \<forall>s \<in> set (slots (pool ! x)). ph s = 0"
  proof (intro ballI)
    fix x s assume x: "x \<in> set ?em" and s: "s \<in> set (slots (pool ! x))"
    then have xl: "x < length pool" and e: "\<forall>i < LEAF_KEYS. ph (slots (pool ! x) ! i) = 0"
      by (simp_all add: max_key_of_None)
    from ok xl have "length (slots (pool ! x)) = LEAF_KEYS" by (rule pool_ok_nth)
    with s e show "ph s = 0" by (auto simp: in_set_conv_nth)
  qed
  from ok sh a b c d show ?thesis
    by (simp add: engine_inv_def Recover_eq [of pool, THEN arg_cong [where f = pmpool]]
                  Recover_eq [of pool, THEN arg_cong [where f = leaves_prealloc]])
qed

lemma engine_inv_pool_unique:
  assumes inv: "engine_inv st"
  shows "pool_unique (pmpool st)"
  unfolding pool_unique_def
proof (intro allI impI)
  fix c i j
  assume c: "c < length (pmpool st)" and i: "i < LEAF_KEYS" and j: "j < LEAF_KEYS"
    and ij: "i \<noteq> j \<and> ph (slots (pmpool st ! c) ! i) \<noteq> 0
              \<and> ph (slots (pmpool st ! c) ! i) = ph (slots (pmpool st ! c) ! j)"
  from inv c have "c \<in> set (map leaf (tree_leaves st)) \<union> set (leaves_prealloc st)"
    by (simp add: engine_inv_def)
  then show "key_string (slots (pmpool st ! c) ! i) \<noteq> key_string (slots (pmpool st ! c) ! j)"
  proof
    assume "c \<in> set (map leaf (tree_leaves st))"
    then obtain ln where ln: "ln \<in> set (tree_leaves st)" "leaf ln = c" by auto
    with inv have m: "mirrors (pmpool st) ln" and u: "unique_keys ln"
      by (simp_all add: engine_inv_def)
    from m i ln have hi: "hashes ln ! i = ph (slots (pmpool st ! c) ! i)"
      and ki: "hashes ln ! i \<noteq> 0 \<longrightarrow> c_str (keys ln ! i) = key_string (slots (pmpool st ! c) ! i)"
      by (auto simp: mirrors_def)
    from m j ln have hj: "hashes ln ! j = ph (slots (pmpool st ! c) ! j)"
      and kj: "hashes ln ! j \<noteq> 0 \<longrightarrow> c_str (keys ln ! j) = key_string (slots (pmpool st ! c) ! j)"
      by (auto simp: mirrors_def)
    from ij hi hj have e: "i \<noteq> j \<and> hashes ln ! i \<noteq> 0 \<and> hashes ln ! i = hashes ln ! j"
      by metis
    with u i j have "c_str (keys ln ! i) \<noteq> c_str (keys ln ! j)"
      unfolding unique_keys_def by blast
    moreover from e have "hashes ln ! i \<noteq> 0" by blast
    moreover from e have "hashes ln ! j \<noteq> 0" by metis
    ultimately show ?thesis using ki kj by simp
  next
    assume "c \<in> set (leaves_prealloc st)"
    with inv have e: "\<forall>s \<in> set (slots (pmpool st ! c)). ph s = 0"
      by (simp add: engine_inv_def)
    from inv c have "length (slots (pmpool st ! c)) = LEAF_KEYS"
      by (simp add: engine_inv_def pool_ok_nth)
    with e i have "ph (slots (pmpool st ! c) ! i) = 0" by simp
    with ij show ?thesis by simp
  qed
qed

lemma reopen_inv: "engine_inv st \<Longrightarrow> engine_inv (reopen st)"
  unfolding reopen_def
  by (rule Recover_inv) (simp_all add: engine_inv_def engine_inv_pool_unique)

lemma fresh_inv: "engine_inv fresh"
  unfolding fresh_def by (rule Recover_inv) (simp_all add: pool_ok_def pool_unique_def)


section \<open>The search after a leaf is replaced\<close>






lemma slot_ok_key_string: "slot_ok s \<Longrightarrow> ph s \<noteq> 0 \<Longrightarrow> key_string s = c_str (slot_key s)"
proof -
  assume ok: "slot_ok s" and h: "ph s \<noteq> 0"
  then have "kv s = Some (slot_key s @ [0] @ slot_value s @ [0])" by (simp add: slot_ok_def)
  then have "key_string s = c_str (slot_key s @ 0 # slot_value s @ [0])"
    by (simp add: key_string_def KVSlot_key_def)
  then show ?thesis by (simp add: c_str_append_zero_any)
qed

lemma lefts_simps [simp]:
  "lefts [] ss = []" "lefts xs [] = []" "lefts (x # xs) (s # ss) = x @ s # lefts xs ss"
  by (simp_all add: lefts_def)

lemma rights_simps [simp]:
  "rights [] xs = []" "rights ss [] = []" "rights (s # ss) (x # xs) = s # x @ rights ss xs"
  by (simp_all add: rights_def)

lemma interleave_append:
  "length as = length ss \<Longrightarrow> interleave (as @ bs) (ss @ ts) = lefts as ss @ interleave bs ts"
  by (induction as ss rule: list_induct2) simp_all

lemma lefts_append:
  "length as = length ss \<Longrightarrow> lefts (as @ bs) (ss @ ts) = lefts as ss @ lefts bs ts"
  by (induction as ss rule: list_induct2) simp_all

lemma interleave_rights:
  "length xs = length ss \<Longrightarrow> interleave (x # xs) ss = x @ rights ss xs"
proof (induction xs ss arbitrary: x rule: list_induct2)
  case Nil
  then show ?case by simp
next
  case (Cons y xs s ss)
  have "interleave (x # y # xs) (s # ss) = x @ s # interleave (y # xs) ss" by simp
  also have "\<dots> = x @ s # y @ rights ss xs" using Cons.IH [of y] by simp
  finally show ?case by simp
qed

lemma interleave_split:
  assumes len: "length xs = length ss + 1" and i: "i < length xs"
  shows "interleave xs ss
           = lefts (take i xs) (take i ss) @ xs ! i @ rights (drop i ss) (drop (i + 1) xs)"
proof -
  have xs: "xs = take i xs @ xs ! i # drop (i + 1) xs"
    using i by (simp add: id_take_nth_drop)
  have ss: "ss = take i ss @ drop i ss" by simp
  have l1: "length (take i xs) = length (take i ss)" using len i by simp
  have l2: "length (drop (i + 1) xs) = length (drop i ss)" using len i by simp
  have "interleave xs ss = interleave (take i xs @ xs ! i # drop (i + 1) xs) (take i ss @ drop i ss)"
    using xs ss by simp
  also have "\<dots> = lefts (take i xs) (take i ss) @ interleave (xs ! i # drop (i + 1) xs) (drop i ss)"
    using l1 by (rule interleave_append)
  also have "interleave (xs ! i # drop (i + 1) xs) (drop i ss)
               = xs ! i @ rights (drop i ss) (drop (i + 1) xs)"
    using l2 by (rule interleave_rights)
  finally show ?thesis .
qed

lemma flat_Inner_split:
  assumes sh: "length cs = length seps + 1" and i: "i < length cs"
  shows "flat (Inner seps (cs[i := n]))
           = lefts (take i (map flat cs)) (take i (map S seps)) @ flat n
             @ rights (drop i (map S seps)) (drop (i + 1) (map flat cs))"
proof -
  let ?xs = "map flat (cs[i := n])"
  have "interleave ?xs (map S seps)
          = lefts (take i ?xs) (take i (map S seps)) @ ?xs ! i
            @ rights (drop i (map S seps)) (drop (i + 1) ?xs)"
    by (rule interleave_split) (use sh i in simp_all)
  moreover have "take i ?xs = take i (map flat cs)" by (simp add: map_update)
  moreover have "drop (i + 1) ?xs = drop (i + 1) (map flat cs)" by (simp add: map_update)
  moreover have "?xs ! i = flat n" using i by simp
  ultimately show ?thesis by simp
qed

lemma flat_plug:
  "path_in t p sub \<Longrightarrow> shape t \<Longrightarrow> flat (plug n p) = fst (ctx p) @ flat n @ snd (ctx p)"
proof (induction p arbitrary: sub n)
  case Nil
  then show ?case by simp
next
  case (Cons f up)
  obtain seps cs i where f: "f = (seps, cs, i)" by (cases f)
  from Cons.prems f have up: "path_in t up (Inner seps cs)" and i: "i < length cs"
    by simp_all
  from up Cons.prems(2) have "shape (Inner seps cs)" by (rule path_in_shape)
  then have len: "length cs = length seps + 1" by simp
  have "flat (plug n (f # up)) = flat (plug (Inner seps (cs[i := n])) up)" using f by simp
  also have "\<dots> = fst (ctx up) @ flat (Inner seps (cs[i := n])) @ snd (ctx up)"
    by (rule Cons.IH [OF up Cons.prems(2)])
  also have "flat (Inner seps (cs[i := n]))
           = lefts (take i (map flat cs)) (take i (map S seps)) @ flat n
             @ rights (drop i (map S seps)) (drop (i + 1) (map flat cs))"
    using len i by (rule flat_Inner_split)
  finally show ?case using f by simp
qed

lemma flat_path: "path_in t p sub \<Longrightarrow> shape t \<Longrightarrow> flat t = fst (ctx p) @ flat sub @ snd (ctx p)"
  using flat_plug [of t p sub sub] by (simp add: plug_same)

lemma interleave_append2:
  "length as = length ss + 1 \<Longrightarrow>
     interleave (as @ bs) (ss @ t # ts) = interleave as ss @ t # interleave bs ts"
proof (induction ss arbitrary: as)
  case Nil
  then obtain a where "as = [a]" by (cases as) auto
  then show ?case by simp
next
  case (Cons s ss)
  then obtain a as' where as: "as = a # as'" and len: "length as' = length ss + 1"
    by (cases as) auto
  from Cons.IH [OF len] as show ?case by simp
qed

lemma interleave_halves:
  assumes xs: "length xs = 6" and ss: "length ss = 5"
  shows "interleave (take 3 xs) (take 2 ss) @ [ss ! 2]
           @ interleave (take 3 (drop 3 xs)) (take 2 (drop 3 ss)) = interleave xs ss"
proof -
  have a: "xs = take 3 xs @ drop 3 xs" by simp
  have b: "ss = take 2 ss @ ss ! 2 # drop 3 ss"
    using ss id_take_nth_drop [of 2 ss] by (simp add: numeral_3_eq_3)
  have c: "take 3 (drop 3 xs) = drop 3 xs" using xs by simp
  have d: "take 2 (drop 3 ss) = drop 3 ss" using ss by simp
  have "interleave (take 3 xs @ drop 3 xs) (take 2 ss @ ss ! 2 # drop 3 ss)
          = interleave (take 3 xs) (take 2 ss) @ ss ! 2 # interleave (drop 3 xs) (drop 3 ss)"
    by (rule interleave_append2) (use xs ss in simp)
  with a b c d show ?thesis by simp
qed

lemma sorted_wrt_mid: "sorted_wrt P (xs @ ys @ zs) \<Longrightarrow> sorted_wrt P ys"
  by (simp add: sorted_wrt_append)

lemma S_in_lefts:
  "length xs = length ss \<Longrightarrow> s \<in> set ss \<Longrightarrow> s \<in> set (lefts xs ss)"
  by (induction xs ss rule: list_induct2) auto

lemma S_in_rights:
  "length ss = length xs \<Longrightarrow> s \<in> set ss \<Longrightarrow> s \<in> set (rights ss xs)"
  by (induction ss xs rule: list_induct2) auto

lemma takeWhile_length_eq:
  assumes "\<forall>j < i. P (xs ! j)" and "i \<le> length xs" and "i < length xs \<longrightarrow> \<not> P (xs ! i)"
  shows "length (takeWhile P xs) = i"
proof -
  have "takeWhile P xs = take i xs"
    by (rule takeWhile_eq_take_P_nth) (use assms in auto)
  with assms(2) show ?thesis by simp
qed

lemma flat_insert:
  assumes len: "length cs = length seps + 1" and i: "i < length cs"
  shows "flat (Inner (take i seps @ [k] @ drop i seps)
                     (take (i + 1) (cs[i := n1]) @ [n2] @ drop (i + 1) (cs[i := n1])))
           = lefts (take i (map flat cs)) (take i (map S seps)) @ flat n1 @ [S k] @ flat n2
             @ rights (drop i (map S seps)) (drop (i + 1) (map flat cs))"
proof -
  let ?A = "take i (map flat cs)" and ?B = "drop (i + 1) (map flat cs)"
  have t: "take (i + 1) (cs[i := n1]) = take i cs @ [n1]"
    using i by (simp add: take_Suc_conv_app_nth)
  have d: "drop (i + 1) (cs[i := n1]) = drop (i + 1) cs" by simp
  have "map flat (take (i + 1) (cs[i := n1]) @ [n2] @ drop (i + 1) (cs[i := n1]))
          = ?A @ (flat n1 # flat n2 # ?B)"
    unfolding t d by (simp add: take_map drop_map)
  moreover have "map S (take i seps @ [k] @ drop i seps)
          = take i (map S seps) @ (S k # drop i (map S seps))"
    by (simp add: take_map drop_map)
  moreover have "interleave (?A @ (flat n1 # flat n2 # ?B)) (take i (map S seps) @ (S k # drop i (map S seps)))
          = lefts ?A (take i (map S seps)) @ interleave (flat n1 # flat n2 # ?B) (S k # drop i (map S seps))"
    by (rule interleave_append) (use len i in simp)
  moreover have "interleave (flat n2 # ?B) (drop i (map S seps)) = flat n2 @ rights (drop i (map S seps)) ?B"
    by (rule interleave_rights) (use len i in simp)
  ultimately show ?thesis by simp
qed

lemma ins_index:
  assumes len: "length cs = length seps + 1" and i: "i < length cs"
    and lo: "\<forall>x \<in> set (lefts (take i (map flat cs)) (take i (map S seps))). item_le x (S k)"
    and hi: "\<forall>x \<in> set (rights (drop i (map S seps)) (drop (i + 1) (map flat cs))). item_le (S k) x"
  shows "length (takeWhile (\<lambda>s. string_compare s k \<le> 0) seps) = i"
proof (rule takeWhile_length_eq)
  show "\<forall>j < i. string_compare (seps ! j) k \<le> 0"
  proof (intro allI impI)
    fix j assume j: "j < i"
    with len i have "S (seps ! j) \<in> set (take i (map S seps))"
      by (auto simp: in_set_conv_nth intro!: exI [of _ j])
    moreover have "length (take i (map flat cs)) = length (take i (map S seps))"
      using len i by simp
    ultimately have "S (seps ! j) \<in> set (lefts (take i (map flat cs)) (take i (map S seps)))"
      by (simp add: S_in_lefts)
    with lo have "item_le (S (seps ! j)) (S k)" by blast
    then show "string_compare (seps ! j) k \<le> 0" by (simp add: string_compare_le)
  qed
  show "i \<le> length seps" using len i by simp
  show "i < length seps \<longrightarrow> \<not> string_compare (seps ! i) k \<le> 0"
  proof
    assume j: "i < length seps"
    then have "S (seps ! i) \<in> set (drop i (map S seps))"
      by (auto simp: in_set_conv_nth intro!: exI [of _ 0])
    moreover have "length (drop i (map S seps)) = length (drop (i + 1) (map flat cs))"
      using len i by simp
    ultimately have "S (seps ! i) \<in> set (rights (drop i (map S seps)) (drop (i + 1) (map flat cs)))"
      by (simp add: S_in_rights)
    with hi have "item_le (S k) (S (seps ! i))" by blast
    then show "\<not> string_compare (seps ! i) k \<le> 0"
      by (simp add: string_compare_le not_le)
  qed
qed

lemma IUAS_flat:
  assumes "path_in t p sub" and "shape t"
    and "sorted_wrt item_le (fst (ctx p) @ flat n1 @ [S k] @ flat n2 @ snd (ctx p))"
  shows "flat (InnerUpdateAfterSplit n1 n2 k p)
           = fst (ctx p) @ flat n1 @ [S k] @ flat n2 @ snd (ctx p)"
  using assms
proof (induction p arbitrary: sub n1 n2 k)
  case Nil
  then show ?case by simp
next
  case (Cons f up)
  obtain seps cs i where f: "f = (seps, cs, i)" by (cases f)
  from Cons.prems f have up: "path_in t up (Inner seps cs)" and i: "i < length cs"
    by simp_all
  from up Cons.prems(2) have sh: "shape (Inner seps cs)" by (rule path_in_shape)
  then have len: "length cs = length seps + 1" and le4: "length seps \<le> INNER_KEYS" by simp_all
  let ?A = "lefts (take i (map flat cs)) (take i (map S seps))"
  let ?B = "rights (drop i (map S seps)) (drop (i + 1) (map flat cs))"
  let ?mid = "?A @ flat n1 @ [S k] @ flat n2 @ ?B"
  from Cons.prems(3) f
  have srt: "sorted_wrt item_le (fst (ctx up) @ ?mid @ snd (ctx up))" by simp
  then have m: "sorted_wrt item_le ?mid" by (rule sorted_wrt_mid)
  have lo: "\<forall>x \<in> set ?A. item_le x (S k)" using m by (auto simp: sorted_wrt_append)
  have hi: "\<forall>x \<in> set ?B. item_le (S k) x" using m by (auto simp: sorted_wrt_append)
  have idx: "length (takeWhile (\<lambda>s. string_compare s k \<le> 0) seps) = i"
    using len i lo hi by (rule ins_index)
  let ?seps' = "ins_seps k seps" and ?cs' = "ins_children k seps n2 (cs[i := n1])"
  have fl: "flat (Inner ?seps' ?cs') = ?mid"
    unfolding ins_seps_def ins_children_def Let_def idx using len i by (rule flat_insert)
  show ?case
  proof (cases "length seps + 1 \<le> INNER_KEYS")
    case True
    then have "InnerUpdateAfterSplit n1 n2 k (f # up) = plug (Inner ?seps' ?cs') up"
      using f by (simp add: IUAS_Cons)
    moreover have "flat (plug (Inner ?seps' ?cs') up)
        = fst (ctx up) @ flat (Inner ?seps' ?cs') @ snd (ctx up)"
      using up Cons.prems(2) by (rule flat_plug)
    ultimately show ?thesis using fl f by simp
  next
    case False
    with le4 have l4: "length seps = 4" by (simp add: inner_consts)
    have ls: "length ?seps' = 5" using l4 by (simp add: length_ins_seps)
    have lc: "length ?cs' = 6" using l4 len by (simp add: length_ins_children)
    let ?n1 = "Inner (take 2 ?seps') (take 3 ?cs')"
    let ?n2 = "Inner (take 2 (drop 3 ?seps')) (take 3 (drop 3 ?cs'))"
    let ?k = "?seps' ! 2"
    have r: "InnerUpdateAfterSplit n1 n2 k (f # up) = InnerUpdateAfterSplit ?n1 ?n2 ?k up"
      using False f by (simp add: IUAS_Cons inner_consts)
    have "interleave (take 3 (map flat ?cs')) (take 2 (map S ?seps')) @ [map S ?seps' ! 2]
           @ interleave (take 3 (drop 3 (map flat ?cs'))) (take 2 (drop 3 (map S ?seps')))
          = interleave (map flat ?cs') (map S ?seps')"
      by (rule interleave_halves) (use ls lc in simp_all)
    then have hv: "flat ?n1 @ [S ?k] @ flat ?n2 = ?mid"
      using fl ls by (simp add: take_map drop_map)
    have E: "fst (ctx up) @ flat ?n1 @ [S ?k] @ flat ?n2 @ snd (ctx up)
          = fst (ctx up) @ ?mid @ snd (ctx up)"
      unfolding hv [symmetric] by simp
    have "flat (InnerUpdateAfterSplit ?n1 ?n2 ?k up)
        = fst (ctx up) @ flat ?n1 @ [S ?k] @ flat ?n2 @ snd (ctx up)"
    proof (rule Cons.IH [OF up Cons.prems(2)])
      show "sorted_wrt item_le (fst (ctx up) @ flat ?n1 @ [S ?k] @ flat ?n2 @ snd (ctx up))"
        using srt by (simp only: E)
    qed
    also note E
    finally show ?thesis using r f by simp
  qed
qed

lemma item_le_before: "item_le x (S s) \<Longrightarrow> s < k \<Longrightarrow> before x k"
  by (cases x) auto

lemma item_le_after: "item_le (S s) x \<Longrightarrow> k \<le> s \<Longrightarrow> after k x"
  by (cases x) auto

lemma child_index_less: "j < child_index key seps \<Longrightarrow> strcmp key (seps ! j) > 0"
proof (induction seps arbitrary: j)
  case Nil
  then show ?case by simp
next
  case (Cons s seps)
  then show ?case by (cases j) (auto split: if_splits)
qed

lemma child_index_stop:
  "child_index key seps < length seps \<Longrightarrow> strcmp key (seps ! child_index key seps) \<le> 0"
  by (induction seps) auto

lemma lefts_last:
  "length xs = length ss \<Longrightarrow> ss \<noteq> [] \<Longrightarrow> \<exists>ys. lefts xs ss = ys @ [last ss]"
proof (induction xs ss rule: list_induct2)
  case Nil
  then show ?case by simp
next
  case (Cons x xs s ss)
  show ?case
  proof (cases "ss = []")
    case True
    with Cons.hyps show ?thesis by simp
  next
    case False
    with Cons.IH obtain ys where "lefts xs ss = ys @ [last ss]" by blast
    with False have "lefts (x # xs) (s # ss) = (x @ s # ys) @ [last (s # ss)]" by simp
    then show ?thesis by blast
  qed
qed

lemma rights_first:
  "length ss = length xs \<Longrightarrow> ss \<noteq> [] \<Longrightarrow> \<exists>zs. rights ss xs = hd ss # zs"
  by (cases ss; cases xs) auto

lemma seps_in_interleave:
  "length xs = length ss + 1 \<Longrightarrow> set ss \<subseteq> set (interleave xs ss)"
proof (induction ss arbitrary: xs)
  case Nil
  then show ?case by simp
next
  case (Cons s ss)
  then obtain x xs' where xs: "xs = x # xs'" and len: "length xs' = length ss + 1"
    by (cases xs) auto
  from Cons.IH [OF len] xs show ?case by auto
qed

lemma child_in_interleave:
  "length xs = length ss + 1 \<Longrightarrow> i < length xs \<Longrightarrow> set (xs ! i) \<subseteq> set (interleave xs ss)"
  by (auto simp: interleave_split [of xs ss i])

lemma sides:
  assumes srt: "sorted_wrt item_le (flat (Inner seps cs))"
    and len: "length cs = length seps + 1"
    and nk: "nul_free key" and ns: "\<forall>s \<in> set seps. nul_free s"
  shows "(\<forall>x \<in> set (lefts (take (child_index key seps) (map flat cs))
                          (take (child_index key seps) (map S seps))). before x key)
       \<and> (\<forall>x \<in> set (rights (drop (child_index key seps) (map S seps))
                            (drop (child_index key seps + 1) (map flat cs))). after key x)"
proof -
  let ?i = "child_index key seps"
  let ?xs = "map flat cs" and ?ss = "map S seps"
  let ?A = "lefts (take ?i ?xs) (take ?i ?ss)"
  let ?B = "rights (drop ?i ?ss) (drop (?i + 1) ?xs)"
  have i: "?i \<le> length seps" by (rule child_index_le)
  have sp: "flat (Inner seps cs) = ?A @ ?xs ! ?i @ ?B"
    using interleave_split [of ?xs ?ss ?i] len i by simp
  with srt have s3: "sorted_wrt item_le (?A @ ?xs ! ?i @ ?B)" by simp
  then have sA: "sorted_wrt item_le ?A" and sB: "sorted_wrt item_le ?B"
    by (simp_all add: sorted_wrt_append)
  have lo: "\<forall>x \<in> set ?A. before x key"
  proof (cases "?i = 0")
    case True
    then show ?thesis by simp
  next
    case False
    then obtain j where j: "?i = Suc j" by (cases ?i) auto
    with i have jl: "j < length seps" by simp
    have ne: "take ?i ?ss \<noteq> []" using False i jl by auto
    have "length (take ?i ?xs) = length (take ?i ?ss)" using len i by simp
    from lefts_last [OF this ne] obtain ys where ys: "?A = ys @ [last (take ?i ?ss)]" by blast
    have "last (take ?i ?ss) = ?ss ! j"
      using j jl by (simp add: take_Suc_conv_app_nth)
    then have la: "last (take ?i ?ss) = S (seps ! j)" using jl by simp
    have "strcmp key (seps ! j) > 0" by (rule child_index_less) (simp add: j)
    then have "c_str (seps ! j) < c_str key" by (simp add: strcmp_greater)
    moreover have "nul_free (seps ! j)" using ns jl by simp
    ultimately have lt: "seps ! j < key" using nk by (simp add: c_str_nul_free)
    from sA ys la have "\<forall>y \<in> set ys. item_le y (S (seps ! j))"
      by (simp add: sorted_wrt_append)
    then have "\<forall>y \<in> set ys. before y key" using lt by (blast intro: item_le_before)
    moreover have "before (S (seps ! j)) key" using lt by simp
    ultimately show ?thesis using ys la by simp
  qed
  have hi: "\<forall>x \<in> set ?B. after key x"
  proof (cases "?i < length seps")
    case False
    then show ?thesis by simp
  next
    case True
    then have ne: "drop ?i ?ss \<noteq> []" by simp
    have "length (drop ?i ?ss) = length (drop (?i + 1) ?xs)" using len by simp
    from rights_first [OF this ne] obtain zs where zs: "?B = hd (drop ?i ?ss) # zs" by blast
    have hd: "hd (drop ?i ?ss) = S (seps ! ?i)" using True by (simp add: hd_drop_conv_nth)
    have "strcmp key (seps ! ?i) \<le> 0" using True by (rule child_index_stop)
    then have "c_str key \<le> c_str (seps ! ?i)" by (simp add: strcmp_le)
    moreover have "nul_free (seps ! ?i)" using ns True by simp
    ultimately have le: "key \<le> seps ! ?i" using nk by (simp add: c_str_nul_free)
    from sB zs hd have "\<forall>z \<in> set zs. item_le (S (seps ! ?i)) z" by simp
    then have "\<forall>z \<in> set zs. after key z" using le by (blast intro: item_le_after)
    moreover have "after key (S (seps ! ?i))" using le by simp
    ultimately show ?thesis using zs hd by simp
  qed
  from lo hi show ?thesis by blast
qed

lemma seps_ok:
  assumes "\<forall>x \<in> set (flat (Inner seps cs)). item_ok x" and "length cs = length seps + 1"
  shows "\<forall>s \<in> set seps. nul_free s"
proof
  fix s assume "s \<in> set seps"
  then have "S s \<in> set (map S seps)" by simp
  with seps_in_interleave [of "map flat cs" "map S seps"] assms(2)
  have "S s \<in> set (flat (Inner seps cs))" by auto
  with assms(1) have "item_ok (S s)" by blast
  then show "nul_free s" by simp
qed

lemma descend_sides:
  assumes "descend key node acc = Some (p, ln)" and "path_in t acc node" and "shape t"
    and "sorted_wrt item_le (flat t)" and "\<forall>x \<in> set (flat t). item_ok x" and "nul_free key"
    and "\<forall>x \<in> set (fst (ctx acc)). before x key" and "\<forall>x \<in> set (snd (ctx acc)). after key x"
  shows "(\<forall>x \<in> set (fst (ctx p)). before x key) \<and> (\<forall>x \<in> set (snd (ctx p)). after key x)"
  using assms
proof (induction key node acc arbitrary: p ln rule: descend.induct)
  case (1 key l path)
  then show ?case by simp
next
  case (2 key seps cs path)
  let ?i = "child_index key seps"
  from "2.prems"(1) have i: "?i < length cs"
    and d: "descend key (cs ! ?i) ((seps, cs, ?i) # path) = Some (p, ln)"
    by (simp_all add: Let_def split: if_splits)
  from "2.prems"(2,3) have sh: "shape (Inner seps cs)" by (rule path_in_shape)
  then have len: "length cs = length seps + 1" by simp
  have fp: "flat t = fst (ctx path) @ flat (Inner seps cs) @ snd (ctx path)"
    using "2.prems"(2,3) by (rule flat_path)
  with "2.prems"(4) have srt: "sorted_wrt item_le (flat (Inner seps cs))"
    by (simp add: sorted_wrt_mid)
  from fp "2.prems"(5) have ok: "\<forall>x \<in> set (flat (Inner seps cs)). item_ok x" by auto
  then have ns: "\<forall>s \<in> set seps. nul_free s" using len by (rule seps_ok)
  from sides [OF srt len "2.prems"(6) ns] "2.prems"(7,8)
  have a: "\<forall>x \<in> set (fst (ctx ((seps, cs, ?i) # path))). before x key"
    and b: "\<forall>x \<in> set (snd (ctx ((seps, cs, ?i) # path))). after key x"
    by auto
  have pi: "path_in t ((seps, cs, ?i) # path) (cs ! ?i)" using i "2.prems"(2) by simp
  show ?case
    by (rule "2.IH" [OF refl i d pi "2.prems"(3,4,5,6) a b])
qed

lemma LeafSearch_sides:
  assumes "LeafSearch key st = Some (p, ln)" and "tree_top st = Some t" and "shape t"
    and "sorted_wrt item_le (flat t)" and "\<forall>x \<in> set (flat t). item_ok x" and "nul_free key"
  shows "(\<forall>x \<in> set (fst (ctx p)). before x key) \<and> (\<forall>x \<in> set (snd (ctx p)). after key x)"
proof -
  from assms(1,2) have d: "descend key t [] = Some (p, ln)" by (simp add: LeafSearch_def)
  show ?thesis by (rule descend_sides [OF d _ assms(3,4,5,6)]) simp_all
qed

lemma descend_finds:
  assumes "shape node" and "sorted_wrt item_le (flat node)"
    and "\<forall>x \<in> set (flat node). item_ok x" and "nul_free key"
    and "L ln \<in> set (flat node)" and "key \<in> set (live_keys ln)"
  shows "\<exists>p. descend key node acc = Some (p, ln)"
  using assms
proof (induction key node acc rule: descend.induct)
  case (1 key l path)
  then show ?case by simp
next
  case (2 key seps cs path)
  let ?i = "child_index key seps"
  let ?xs = "map flat cs" and ?ss = "map S seps"
  from "2.prems"(1) have len: "length cs = length seps + 1" by simp
  have "?i \<le> length seps" by (rule child_index_le)
  with len have i: "?i < length cs" by simp
  have ns: "\<forall>s \<in> set seps. nul_free s" using "2.prems"(3) len by (rule seps_ok)
  from sides [OF "2.prems"(2) len "2.prems"(4) ns]
  have lo: "\<forall>x \<in> set (lefts (take ?i ?xs) (take ?i ?ss)). before x key"
    and hi: "\<forall>x \<in> set (rights (drop ?i ?ss) (drop (?i + 1) ?xs)). after key x" by blast+
  have sp: "flat (Inner seps cs)
      = lefts (take ?i ?xs) (take ?i ?ss) @ ?xs ! ?i @ rights (drop ?i ?ss) (drop (?i + 1) ?xs)"
    using interleave_split [of ?xs ?ss ?i] len i by simp
  have "\<not> before (L ln) key" using "2.prems"(6) by auto
  moreover have "\<not> after key (L ln)" using "2.prems"(6) by auto
  ultimately have "L ln \<in> set (?xs ! ?i)" using "2.prems"(5) lo hi unfolding sp by auto
  then have mem: "L ln \<in> set (flat (cs ! ?i))" using i by simp
  have sh: "shape (cs ! ?i)" using "2.prems"(1) i by simp
  have srt: "sorted_wrt item_le (flat (cs ! ?i))"
    using "2.prems"(2) i unfolding sp by (simp add: sorted_wrt_append)
  have ok: "\<forall>x \<in> set (flat (cs ! ?i)). item_ok x"
    using "2.prems"(3) i unfolding sp by simp
  from "2.IH" [OF refl i sh srt ok "2.prems"(4) mem "2.prems"(6)]
  obtain p where "descend key (cs ! ?i) ((seps, cs, ?i) # path) = Some (p, ln)" by blast
  with i show ?case by (simp add: Let_def)
qed

section \<open>The branches of Put\<close>

lemma split_setup:
  assumes inv: "engine_inv st" and ls: "LeafSearch key st = Some (p, ln)"
    and r: "obtain_leaf None (pmpool st) (leaves_prealloc st) = (e, b, pool1, pre1)"
  shows "e = None \<and> pool_ok pool1 \<and> b < length pool1 \<and> leaf ln \<noteq> b \<and> mirrors pool1 ln
     \<and> (\<forall>s \<in> set (slots (pool1 ! b)). ph s = 0)
     \<and> length (pmpool st) \<le> length pool1
     \<and> (\<forall>a < length (pmpool st). pool1 ! a = pmpool st ! a)"
proof -
  from inv ls obtain t where t: "tree_top st = Some t" "path_in t p (Leaf ln)"
    "ln \<in> set (leaves_of t)" "mirrors (pmpool st) ln" "unique_keys ln" "shape (Leaf ln)" "shape t"
    by (rule LeafSearch_leaf)
  let ?pool = "pmpool st"
  from obtain_leaf_None [OF inv r] have o: "e = None" "pool_ok pool1" "b < length pool1"
    "length ?pool \<le> length pool1"
    "\<forall>a < length ?pool. pool1 ! a = ?pool ! a"
    "\<forall>s \<in> set (slots (pool1 ! b)). ph s = 0"
    "mset [b] + mset pre1 = mset (leaves_prealloc st) + mset [length ?pool..<length pool1]"
    by simp_all
  from inv t(1) have d: "distinct (map leaf (leaves_of t) @ leaves_prealloc st)"
    and cov: "set (map leaf (leaves_of t)) \<union> set (leaves_prealloc st) = {0..<length ?pool}"
    by (simp_all add: engine_inv_def tree_leaves_Some)
  from t(4) have a: "leaf ln < length ?pool" by (simp add: mirrors_def)
  have dd: "distinct ((map leaf (leaves_of t) @ leaves_prealloc st) @ [length ?pool..<length pool1])"
    using d by (rule distinct_append_fresh) (use cov in simp)
  have bmem: "b \<in> set (leaves_prealloc st) \<union> set [length ?pool..<length pool1]"
  proof -
    have "b \<in># mset [b] + mset pre1" by simp
    with o(7) have "b \<in># mset (leaves_prealloc st) + mset [length ?pool..<length pool1]" by simp
    then show ?thesis by (simp only: set_mset_mset [symmetric] set_mset_union)
  qed
  have lin: "leaf ln \<in> set (map leaf (leaves_of t))" using t(3) by simp
  have ab: "leaf ln \<noteq> b"
    using bmem dd lin a by auto
  have m1: "mirrors pool1 ln"
    using t(4) o(4,5) a by (simp add: mirrors_def)
  from o ab m1 show ?thesis by simp
qed

lemma Put_cases:
  assumes inv: "engine_inv st"
  obtains (first) b pool1 pre1 where
      "tree_top st = None"
      "obtain_leaf None (pmpool st) (leaves_prealloc st) = (None, b, pool1, pre1)"
      "Put None key val st =
         (OK, st\<lparr>pmpool := put_slot pool1 b 0
                              (KVSlot_set (PearsonHash key) key val (slots (pool1 ! b) ! 0)),
                 leaves_prealloc := pre1,
                 tree_top := Some (Leaf (new_KVLeafNode
                     \<lparr>leaf := b, hashes := (hashes new_KVLeafNode)[0 := PearsonHash key],
                      keys := (keys new_KVLeafNode)[0 := key]\<rparr>))\<rparr>)"
    | (fill) p ln s where
      "LeafSearch key st = Some (p, ln)" "s < LEAF_KEYS"
      "hashes ln ! s = 0 \<or> (hashes ln ! s = PearsonHash key \<and> c_str (keys ln ! s) = c_str key)"
      "Put None key val st =
         (OK, st\<lparr>pmpool := put_slot (pmpool st) (leaf ln) s
                              (KVSlot_set (PearsonHash key) key val (slots (pmpool st ! leaf ln) ! s)),
                 tree_top := Some (plug (Leaf (if hashes ln ! s = 0
                     then ln\<lparr>hashes := (hashes ln)[s := PearsonHash key],
                             keys := (keys ln)[s := key]\<rparr> else ln)) p)\<rparr>)"
    | (split) p ln b pool1 pre1 ln3 nln3 pool3 where
      "LeafSearch key st = Some (p, ln)"
      "\<forall>j < LEAF_KEYS. hashes ln ! j \<noteq> 0"
      "\<forall>j < LEAF_KEYS. \<not> (hashes ln ! j = PearsonHash key \<and> c_str (keys ln ! j) = c_str key)"
      "obtain_leaf None (pmpool st) (leaves_prealloc st) = (None, b, pool1, pre1)"
      "split_body None (split_key_of ln key) ln (new_KVLeafNode\<lparr>leaf := b\<rparr>)
          (PearsonHash key) key val pool1 = (None, (ln3, nln3), pool3)"
      "Put None key val st =
         (OK, st\<lparr>pmpool := pool3, leaves_prealloc := pre1,
                 tree_top := Some (InnerUpdateAfterSplit (Leaf ln3) (Leaf nln3)
                                     (split_key_of ln key) p)\<rparr>)"
proof (cases "LeafSearch key st")
  case None
  from inv have "shaped st" by (simp add: engine_inv_def)
  with None have top: "tree_top st = None" by (simp add: LeafSearch_None)
  obtain e b pool1 pre1 where r: "obtain_leaf None (pmpool st) (leaves_prealloc st) = (e, b, pool1, pre1)"
    by (cases "obtain_leaf None (pmpool st) (leaves_prealloc st)")
  from obtain_leaf_None [OF inv r] have e: "e = None" by simp
  have z: "hashes (new_KVLeafNode\<lparr>leaf := b\<rparr>) ! 0 = 0"
    by (simp add: new_KVLeafNode_def LEAF_KEYS_def)
  show thesis
  proof (rule first [OF top])
    show "obtain_leaf None (pmpool st) (leaves_prealloc st) = (None, b, pool1, pre1)"
      using r e by simp
    show "Put None key val st =
         (OK, st\<lparr>pmpool := put_slot pool1 b 0
                              (KVSlot_set (PearsonHash key) key val (slots (pool1 ! b) ! 0)),
                 leaves_prealloc := pre1,
                 tree_top := Some (Leaf (new_KVLeafNode
                     \<lparr>leaf := b, hashes := (hashes new_KVLeafNode)[0 := PearsonHash key],
                      keys := (keys new_KVLeafNode)[0 := key]\<rparr>))\<rparr>)"
      using None r e z by (simp add: Put_def Let_def fill_results exec_tx_def)
  qed
next
  case (Some pl)
  obtain p ln where pl: "pl = (p, ln)" by (cases pl)
  with Some have ls: "LeafSearch key st = Some (p, ln)" by simp
  obtain found e ln' pool' where f:
    "LeafFillSlotForKey None ln (PearsonHash key) key val (pmpool st) = (found, e, ln', pool')"
    by (cases "LeafFillSlotForKey None ln (PearsonHash key) key val (pmpool st)") auto
  show thesis
  proof (cases found)
    case True
    with f have f': "LeafFillSlotForKey None ln (PearsonHash key) key val (pmpool st) = (True, e, ln', pool')"
      by simp
    from f' obtain s where s: "s < LEAF_KEYS"
      "LeafFillSpecificSlot None ln (PearsonHash key) key val s (pmpool st) = (e, ln', pool')"
      "hashes ln ! s = 0 \<or> (hashes ln ! s = PearsonHash key \<and> c_str (keys ln ! s) = c_str key)"
      by (rule LeafFillSlotForKey_True)
    from s(2) have eq: "e = None"
      "ln' = (if hashes ln ! s = 0
              then ln\<lparr>hashes := (hashes ln)[s := PearsonHash key], keys := (keys ln)[s := key]\<rparr>
              else ln)"
      "pool' = put_slot (pmpool st) (leaf ln) s
                 (KVSlot_set (PearsonHash key) key val (slots (pmpool st ! leaf ln) ! s))"
      by (simp_all add: fill_results)
    show thesis
    proof (rule fill [OF ls s(1) s(3)])
      show "Put None key val st =
         (OK, st\<lparr>pmpool := put_slot (pmpool st) (leaf ln) s
                              (KVSlot_set (PearsonHash key) key val (slots (pmpool st ! leaf ln) ! s)),
                 tree_top := Some (plug (Leaf (if hashes ln ! s = 0
                     then ln\<lparr>hashes := (hashes ln)[s := PearsonHash key],
                             keys := (keys ln)[s := key]\<rparr> else ln)) p)\<rparr>)"
        using ls f' eq by (simp add: Put_def Let_def)
    qed
  next
    case False
    with f have f': "LeafFillSlotForKey None ln (PearsonHash key) key val (pmpool st) = (False, e, ln', pool')"
      by simp
    from LeafFillSlotForKey_False [OF f']
    have full: "\<forall>j < LEAF_KEYS. hashes ln ! j \<noteq> 0"
      and nm: "\<forall>j < LEAF_KEYS. \<not> (hashes ln ! j = PearsonHash key \<and> c_str (keys ln ! j) = c_str key)"
      by simp_all
    obtain e1 b pool1 pre1 where r: "obtain_leaf None (pmpool st) (leaves_prealloc st) = (e1, b, pool1, pre1)"
      by (cases "obtain_leaf None (pmpool st) (leaves_prealloc st)")
    from split_setup [OF inv ls r] have o: "e1 = None" "pool_ok pool1" "b < length pool1"
      "leaf ln \<noteq> b" "mirrors pool1 ln" "\<forall>s \<in> set (slots (pool1 ! b)). ph s = 0"
      by simp_all
    from LeafSearch_leaf [OF inv ls] have u: "unique_keys ln" and sh: "shape (Leaf ln)" by blast+
    obtain e2 ln3 nln3 pool3 where sb:
      "split_body None (split_key_of ln key) ln (new_KVLeafNode\<lparr>leaf := b\<rparr>) (PearsonHash key) key val pool1
         = (e2, (ln3, nln3), pool3)"
      by (cases "split_body None (split_key_of ln key) ln (new_KVLeafNode\<lparr>leaf := b\<rparr>) (PearsonHash key) key val pool1") auto
    from split_body_inv [OF o(2) o(5) u sh o(3) o(4) o(6) nm sb] have e2: "e2 = None" by simp
    show thesis
    proof (rule split [OF ls full nm])
      show "obtain_leaf None (pmpool st) (leaves_prealloc st) = (None, b, pool1, pre1)"
        using r o(1) by simp
      show "split_body None (split_key_of ln key) ln (new_KVLeafNode\<lparr>leaf := b\<rparr>)
              (PearsonHash key) key val pool1 = (None, (ln3, nln3), pool3)"
        using sb e2 by simp
      show "Put None key val st =
         (OK, st\<lparr>pmpool := pool3, leaves_prealloc := pre1,
                 tree_top := Some (InnerUpdateAfterSplit (Leaf ln3) (Leaf nln3)
                                     (split_key_of ln key) p)\<rparr>)"
        using ls f' r o(1) sb e2 by (simp add: Put_def LeafSplitFull_def Let_def exec_tx_def)
    qed
  qed
qed

section \<open>The split of a leaf\<close>

lemma live_keys_set:
  "set (live_keys ln) = {keys ln ! i | i. i < LEAF_KEYS \<and> hashes ln ! i \<noteq> 0}"
  by (auto simp: live_keys_def)

lemma sorted_candidates:
  "mset (sort_by_strcmp id xs) = mset xs \<and> sorted (map c_str (sort_by_strcmp id xs))"
  by (simp add: sort_by_strcmp_sort_key)

lemma sorted_candidates_strict:
  assumes d: "distinct (map c_str xs)" and ij: "i < j" "j < length xs"
  shows "c_str (sort_by_strcmp id xs ! i) < c_str (sort_by_strcmp id xs ! j)"
proof -
  let ?s = "sort_by_strcmp id xs"
  have m: "mset ?s = mset xs" and s: "sorted (map c_str ?s)"
    using sorted_candidates [of xs] by simp_all
  from m have len: "length ?s = length xs" by (rule mset_eq_length)
  from m have "mset (map c_str ?s) = mset (map c_str xs)" by simp
  with d have "distinct (map c_str ?s)" by (metis mset_eq_imp_distinct_iff)
  with s have "sorted_wrt (<) (map c_str ?s)" by (simp add: strict_sorted_iff)
  then have "map c_str ?s ! i < map c_str ?s ! j"
    by (rule sorted_wrt_nth_less) (use ij len in simp_all)
  with ij len show ?thesis by simp
qed

lemma split_key_mem:
  assumes "length (keys ln) = LEAF_KEYS"
  shows "split_key_of ln key \<in> set (keys ln @ [key])"
proof -
  let ?s = "sort_by_strcmp id (keys ln @ [key])"
  have m: "mset ?s = mset (keys ln @ [key])" using sorted_candidates by blast
  then have "length ?s = length (keys ln @ [key])" by (rule mset_eq_length)
  with assms have "LEAF_KEYS_MIDPOINT < length ?s"
    by (simp add: LEAF_KEYS_MIDPOINT_def LEAF_KEYS_def)
  then have "?s ! LEAF_KEYS_MIDPOINT \<in> set ?s" by simp
  also have "set ?s = set (keys ln @ [key])" using m by (rule mset_eq_setD)
  finally show ?thesis unfolding split_key_of_def .
qed

lemma split_key_above:
  assumes len: "length (keys ln) = LEAF_KEYS" and d: "distinct (map c_str (keys ln @ [key]))"
  shows "\<exists>k' \<in> set (keys ln @ [key]). c_str (split_key_of ln key) < c_str k'"
proof -
  let ?s = "sort_by_strcmp id (keys ln @ [key])"
  have m: "mset ?s = mset (keys ln @ [key])" using sorted_candidates by blast
  then have l: "length ?s = length (keys ln @ [key])" by (rule mset_eq_length)
  have "c_str (?s ! LEAF_KEYS_MIDPOINT) < c_str (?s ! LEAF_KEYS)"
    using d by (rule sorted_candidates_strict)
       (use len in \<open>simp_all add: LEAF_KEYS_MIDPOINT_def LEAF_KEYS_def\<close>)
  moreover have "?s ! LEAF_KEYS \<in> set ?s" using l len by simp
  moreover have "set ?s = set (keys ln @ [key])" using m by (rule mset_eq_setD)
  ultimately show ?thesis unfolding split_key_of_def by blast
qed

lemma split_body_cases:
  assumes r: "split_body None sk ln nln h key val pool = (e, (ln3, nln3), pool3)"
  obtains ln1 nln1 pool1 tgt where
    "move_slots LEAF_KEYS sk ln nln pool = (ln1, nln1, pool1)"
    "LeafFillEmptySlot None (if strcmp key sk > 0 then nln1 else ln1) h key val pool1
       = (e, tgt, pool3)"
    "ln3 = (if strcmp key sk > 0 then ln1 else tgt)"
    "nln3 = (if strcmp key sk > 0 then tgt else nln1)"
proof -
  obtain ln1 nln1 pool1 where mv: "move_slots LEAF_KEYS sk ln nln pool = (ln1, nln1, pool1)"
    by (cases "move_slots LEAF_KEYS sk ln nln pool")
  obtain e' tgt p' where f:
    "LeafFillEmptySlot None (if strcmp key sk > 0 then nln1 else ln1) h key val pool1 = (e', tgt, p')"
    by (cases "LeafFillEmptySlot None (if strcmp key sk > 0 then nln1 else ln1) h key val pool1")
  show thesis
  proof (rule that [OF mv])
    show "LeafFillEmptySlot None (if strcmp key sk > 0 then nln1 else ln1) h key val pool1
            = (e, tgt, pool3)"
      using r mv f by (auto simp: split_body_def split: if_splits)
    show "ln3 = (if strcmp key sk > 0 then ln1 else tgt)"
      using r mv f by (auto simp: split_body_def split: if_splits)
    show "nln3 = (if strcmp key sk > 0 then tgt else nln1)"
      using r mv f by (auto simp: split_body_def split: if_splits)
  qed
qed

lemma moved_full: "moved sk ln LEAF_KEYS i \<longleftrightarrow> i < LEAF_KEYS \<and> strcmp (keys ln ! i) sk > 0"
  by (simp add: moved_def)

lemma move_slots_mirror:
  assumes sh: "shape (Leaf ln)"
    and mv: "move_slots LEAF_KEYS sk ln (new_KVLeafNode\<lparr>leaf := b\<rparr>) pool = (ln1, nln1, pool1)"
  shows "hashes ln1 ! i = (if i < LEAF_KEYS \<and> strcmp (keys ln ! i) sk > 0 then 0 else hashes ln ! i)"
    and "keys ln1 ! i = (if i < LEAF_KEYS \<and> strcmp (keys ln ! i) sk > 0 then [] else keys ln ! i)"
    and "i < LEAF_KEYS \<Longrightarrow>
           hashes nln1 ! i = (if strcmp (keys ln ! i) sk > 0 then hashes ln ! i else 0)"
    and "i < LEAF_KEYS \<Longrightarrow>
           keys nln1 ! i = (if strcmp (keys ln ! i) sk > 0 then keys ln ! i else [])"
proof -
  let ?new = "new_KVLeafNode\<lparr>leaf := b\<rparr>"
  from sh have len: "LEAF_KEYS \<le> length (hashes ln)" "LEAF_KEYS \<le> length (keys ln)" by simp_all
  have lenn: "LEAF_KEYS \<le> length (hashes ?new)" "LEAF_KEYS \<le> length (keys ?new)"
    by (simp_all add: new_KVLeafNode_def)
  from move_slots_old [OF len, of sk ?new pool i] mv
  show "hashes ln1 ! i = (if i < LEAF_KEYS \<and> strcmp (keys ln ! i) sk > 0 then 0 else hashes ln ! i)"
    and "keys ln1 ! i = (if i < LEAF_KEYS \<and> strcmp (keys ln ! i) sk > 0 then [] else keys ln ! i)"
    by (simp_all add: moved_full)
  from move_slots_new [OF lenn, of sk ln pool i] mv
  show "i < LEAF_KEYS \<Longrightarrow>
           hashes nln1 ! i = (if strcmp (keys ln ! i) sk > 0 then hashes ln ! i else 0)"
    and "i < LEAF_KEYS \<Longrightarrow>
           keys nln1 ! i = (if strcmp (keys ln ! i) sk > 0 then keys ln ! i else [])"
    by (simp_all add: moved_full new_KVLeafNode_def)
qed

lemma move_slots_lengths:
  assumes mv: "move_slots n sk ln nln pool = (ln1, nln1, pool1)"
  shows "length (hashes ln1) = length (hashes ln) \<and> length (keys ln1) = length (keys ln)
       \<and> length (hashes nln1) = length (hashes nln) \<and> length (keys nln1) = length (keys nln)
       \<and> leaf ln1 = leaf ln \<and> leaf nln1 = leaf nln"
  using mv
proof (induction n arbitrary: ln nln pool)
  case 0
  then show ?case by simp
next
  case (Suc n)
  show ?case
  proof (cases "strcmp (keys ln ! n) sk > 0")
    case True
    with Suc.prems Suc.IH [of "ln\<lparr>hashes := (hashes ln)[n := 0], keys := (keys ln)[n := []]\<rparr>"
        "nln\<lparr>hashes := (hashes nln)[n := hashes ln ! n], keys := (keys nln)[n := keys ln ! n]\<rparr>"
        "swap_slots pool (leaf nln) (leaf ln) n"]
    show ?thesis by simp
  next
    case False
    with Suc.prems Suc.IH [of ln nln pool] show ?thesis by simp
  qed
qed

lemma split_places:
  assumes sh: "shape (Leaf ln)" and full: "\<forall>j < LEAF_KEYS. hashes ln ! j \<noteq> 0"
    and d: "distinct (map c_str (keys ln @ [key]))"
    and mv: "move_slots LEAF_KEYS (split_key_of ln key) ln (new_KVLeafNode\<lparr>leaf := b\<rparr>) pool
               = (ln1, nln1, pool1)"
  shows "first_empty LEAF_KEYS (if strcmp key (split_key_of ln key) > 0 then nln1 else ln1) \<noteq> None"
proof -
  let ?sk = "split_key_of ln key"
  from sh have len: "length (keys ln) = LEAF_KEYS" by simp
  note mm = move_slots_mirror [OF sh mv]
  show ?thesis
  proof (cases "strcmp key ?sk > 0")
    case True
    then have "c_str ?sk \<noteq> c_str key" by (simp add: strcmp_greater)
    then have "?sk \<noteq> key" by auto
    with split_key_mem [OF len, of key] have "?sk \<in> set (keys ln)" by simp
    then obtain i where i: "i < LEAF_KEYS" "keys ln ! i = ?sk"
      using len by (auto simp: in_set_conv_nth)
    then have "\<not> strcmp (keys ln ! i) ?sk > 0" by (simp add: strcmp_greater)
    with mm(3) [OF i(1)] have "hashes nln1 ! i = 0" by simp
    with i(1) have "\<not> (\<forall>j < LEAF_KEYS. hashes nln1 ! j \<noteq> 0)" by blast
    then have "first_empty LEAF_KEYS nln1 \<noteq> None" by (simp add: first_empty_None)
    with True show ?thesis by simp
  next
    case False
    then have le: "c_str key \<le> c_str ?sk" by (simp add: strcmp_greater not_less)
    from split_key_above [OF len d] obtain k' where
      k': "k' \<in> set (keys ln @ [key])" "c_str ?sk < c_str k'" by blast
    with le have "k' \<noteq> key" by auto
    with k'(1) have "k' \<in> set (keys ln)" by simp
    then obtain i where i: "i < LEAF_KEYS" "keys ln ! i = k'"
      using len by (auto simp: in_set_conv_nth)
    with k'(2) have "strcmp (keys ln ! i) ?sk > 0" by (simp add: strcmp_greater)
    with mm(1) [of i] i(1) have "hashes ln1 ! i = 0" by simp
    with i(1) have "\<not> (\<forall>j < LEAF_KEYS. hashes ln1 ! j \<noteq> 0)" by blast
    then have "first_empty LEAF_KEYS ln1 \<noteq> None" by (simp add: first_empty_None)
    with False show ?thesis by simp
  qed
qed

section \<open>Leaves and items\<close>

lemma L_in_interleave:
  "L l \<in> set (interleave xs (map S ss)) \<longleftrightarrow> (\<exists>x \<in> set xs. L l \<in> set x)"
proof (induction xs arbitrary: ss)
  case Nil
  then show ?case by (cases ss) auto
next
  case (Cons x xs)
  then show ?case by (cases ss) auto
qed

lemma L_in_flat: "L l \<in> set (flat t) \<longleftrightarrow> l \<in> set (leaves_of t)"
proof (induction t)
  case (Leaf ln)
  then show ?case by auto
next
  case (Inner seps cs)
  then show ?case by (auto simp: L_in_interleave)
qed

lemma nul_free_empty: "nul_free []"
  by (simp add: nul_free_def)

lemma slot_key_empty: "slot_key empty_slot = []"
  by (simp add: slot_key_def empty_slot_def)

lemma slot_key_set: "slot_key (KVSlot_set h key val s) = key"
  by (simp add: slot_key_def KVSlot_set_def)

lemma slot_value_set: "slot_value (KVSlot_set h key val s) = val"
  by (simp add: slot_value_def KVSlot_set_def)

lemma slot_key_clear: "slot_key (KVSlot_clear s) = []"
  by (simp add: slot_key_def KVSlot_clear_def)

lemma pnf_put_slot:
  assumes "pool_nul_free pool" and "nul_free (slot_key s)"
  shows "pool_nul_free (put_slot pool a i s)"
proof (cases "a < length pool")
  case False
  with assms(1) show ?thesis by (simp add: put_slot_def list_update_beyond)
next
  case True
  show ?thesis
    unfolding pool_nul_free_def
  proof (intro allI impI)
    fix c j assume c: "c < length (put_slot pool a i s)" and j: "j < LEAF_KEYS"
    then have c': "c < length pool" by (simp add: length_put_slot)
    with assms(1) j have old: "nul_free (slot_key (slots (pool ! c) ! j))"
      by (simp add: pool_nul_free_def)
    show "nul_free (slot_key (slots (put_slot pool a i s ! c) ! j))"
      using True old assms(2) by (cases "j = i"; cases "i < length (slots (pool ! a))")
        (auto simp: put_slot_nth list_update_beyond)
  qed
qed

lemma pnf_obtain_leaf:
  assumes "pool_nul_free pool" and "obtain_leaf None pool pre = (e, b, pool1, pre1)"
  shows "pool_nul_free pool1"
proof -
  from assms(2) have "pool1 = pool \<or> pool1 = pool @ [empty_leaf]"
    by (auto simp: obtain_leaf_def split: if_splits)
  then show ?thesis
  proof
    assume "pool1 = pool"
    with assms(1) show ?thesis by simp
  next
    assume p: "pool1 = pool @ [empty_leaf]"
    show ?thesis
      unfolding pool_nul_free_def p
    proof (intro allI impI)
      fix c i assume c: "c < length (pool @ [empty_leaf])" and i: "i < LEAF_KEYS"
      show "nul_free (slot_key (slots ((pool @ [empty_leaf]) ! c) ! i))"
      proof (cases "c < length pool")
        case True
        with assms(1) i show ?thesis by (simp add: pool_nul_free_def nth_append)
      next
        case False
        with c have "c = length pool" by simp
        with i show ?thesis
          by (simp add: empty_leaf_def slot_key_empty nul_free_empty)
      qed
    qed
  qed
qed

lemma pnf_fill:
  assumes "pool_nul_free pool" and "nul_free key"
    and "LeafFillSpecificSlot None ln h key val s pool = (e, ln', pool')"
  shows "pool_nul_free pool'"
  using assms by (auto simp: fill_results slot_key_set intro!: pnf_put_slot)

lemma pnf_fill_empty:
  assumes "pool_nul_free pool" and "nul_free key"
    and "LeafFillEmptySlot None ln h key val pool = (e, ln', pool')"
  shows "pool_nul_free pool'"
  using assms(3)
proof (cases rule: LeafFillEmptySlot_cases)
  case 1
  with assms(1) show ?thesis by simp
next
  case (2 t)
  with assms(1,2) show ?thesis by (blast intro: pnf_fill)
qed

lemma pnf_move:
  assumes pnf: "pool_nul_free pool" and ok: "pool_ok pool"
    and ab: "leaf ln \<noteq> leaf nln" and a: "leaf ln < length pool" and b: "leaf nln < length pool"
    and mv: "move_slots LEAF_KEYS sk ln nln pool = (ln1, nln1, pool1)"
  shows "pool_nul_free pool1"
  unfolding pool_nul_free_def
proof (intro allI impI)
  fix c i assume c: "c < length pool1" and i: "i < LEAF_KEYS"
  from move_slots_struct [OF ab a b, of LEAF_KEYS sk] mv
  have len: "length pool1 = length pool"
    and same: "\<forall>c. c \<noteq> leaf ln \<and> c \<noteq> leaf nln \<longrightarrow> pool1 ! c = pool ! c"
    by simp_all
  have la: "LEAF_KEYS \<le> length (slots (pool ! leaf ln))" using ok a by (simp add: pool_ok_nth)
  have lb: "LEAF_KEYS \<le> length (slots (pool ! leaf nln))" using ok b by (simp add: pool_ok_nth)
  from move_slots_pool [OF ab a b la lb, of sk i] mv
  have sa: "slots (pool1 ! leaf ln) ! i
             = (if moved sk ln LEAF_KEYS i then slots (pool ! leaf nln) ! i else slots (pool ! leaf ln) ! i)"
    and sb: "slots (pool1 ! leaf nln) ! i
             = (if moved sk ln LEAF_KEYS i then slots (pool ! leaf ln) ! i else slots (pool ! leaf nln) ! i)"
    by simp_all
  from pnf a i have na: "nul_free (slot_key (slots (pool ! leaf ln) ! i))"
    by (simp add: pool_nul_free_def)
  from pnf b i have nb: "nul_free (slot_key (slots (pool ! leaf nln) ! i))"
    by (simp add: pool_nul_free_def)
  show "nul_free (slot_key (slots (pool1 ! c) ! i))"
  proof (cases "c = leaf ln \<or> c = leaf nln")
    case True
    with sa sb na nb show ?thesis by auto
  next
    case False
    with same have "pool1 ! c = pool ! c" by simp
    with pnf c len i show ?thesis by (simp add: pool_nul_free_def)
  qed
qed

lemma pnf_Put:
  assumes inv: "engine_inv st" and pnf: "pool_nul_free (pmpool st)" and nk: "nul_free key"
  shows "pool_nul_free (pmpool (snd (Put None key val st)))"
  using inv
proof (cases rule: Put_cases [where key = key and val = val])
  case (first b pool1 pre1)
  from pnf first(2) have "pool_nul_free pool1" by (rule pnf_obtain_leaf)
  then have "pool_nul_free (put_slot pool1 b 0
                (KVSlot_set (PearsonHash key) key val (slots (pool1 ! b) ! 0)))"
    by (rule pnf_put_slot) (simp add: slot_key_set nk)
  with first(3) show ?thesis by simp
next
  case (fill p ln s)
  from pnf have "pool_nul_free (put_slot (pmpool st) (leaf ln) s
                (KVSlot_set (PearsonHash key) key val (slots (pmpool st ! leaf ln) ! s)))"
    by (rule pnf_put_slot) (simp add: slot_key_set nk)
  with fill(4) show ?thesis by simp
next
  case (split p ln b pool1 pre1 ln3 nln3 pool3)
  from pnf split(4) have p1: "pool_nul_free pool1" by (rule pnf_obtain_leaf)
  from split_setup [OF inv split(1) split(4)] have o: "pool_ok pool1" "b < length pool1"
    "leaf ln \<noteq> b" "mirrors pool1 ln" by simp_all
  from o(4) have a: "leaf ln < length pool1" by (simp add: mirrors_def)
  from split(5) obtain ln1 nln1 pool2 tgt where
    mv: "move_slots LEAF_KEYS (split_key_of ln key) ln (new_KVLeafNode\<lparr>leaf := b\<rparr>) pool1
           = (ln1, nln1, pool2)"
    and f: "LeafFillEmptySlot None (if strcmp key (split_key_of ln key) > 0 then nln1 else ln1)
              (PearsonHash key) key val pool2 = (None, tgt, pool3)"
    by (rule split_body_cases)
  have "pool_nul_free pool2"
    using p1 o(1) _ a _ mv by (rule pnf_move) (use o in simp_all)
  then have "pool_nul_free pool3" using nk f by (rule pnf_fill_empty)
  with split(6) show ?thesis by simp
qed

lemma pnf_Remove:
  assumes pnf: "pool_nul_free (pmpool st)"
  shows "pool_nul_free (pmpool (snd (Remove None key st)))"
proof -
  have "pool_nul_free (put_slot (pmpool st) a s (KVSlot_clear x))" for a s x
    using pnf by (rule pnf_put_slot) (simp add: slot_key_clear nul_free_empty)
  with pnf show ?thesis
    by (simp add: Remove_results split: option.splits)
qed

section \<open>The order of the items after a leaf changes\<close>

lemma before_cand:
  "item_le x (L ln) \<Longrightarrow> before x key \<Longrightarrow> k \<in> insert key (set (live_keys ln)) \<Longrightarrow> before x k"
  by (cases x) auto

lemma after_cand:
  "item_le (L ln) y \<Longrightarrow> after key y \<Longrightarrow> k \<in> insert key (set (live_keys ln)) \<Longrightarrow> after k y"
  by (cases y) auto

lemma before_all_L: "(\<forall>k \<in> set (live_keys l). before x k) \<Longrightarrow> item_le x (L l)"
  by (cases x) auto

lemma after_all_L: "(\<forall>k \<in> set (live_keys l). after k y) \<Longrightarrow> item_le (L l) y"
  by (cases y) auto

lemma before_S: "before x k \<Longrightarrow> item_le x (S k)"
  by (cases x) auto

lemma after_S: "after k' y \<Longrightarrow> k < k' \<Longrightarrow> item_le (S k) y"
  by (cases y) auto

lemma item_le_shrink_right:
  "item_le x (L ln) \<Longrightarrow> set (live_keys ln') \<subseteq> set (live_keys ln) \<Longrightarrow> item_le x (L ln')"
  by (cases x) auto

lemma item_le_shrink_left:
  "item_le (L ln) y \<Longrightarrow> set (live_keys ln') \<subseteq> set (live_keys ln) \<Longrightarrow> item_le (L ln') y"
  by (cases y) auto

lemma sorted_wrt_replace:
  assumes "sorted_wrt R (pre @ [a] @ post)"
    and "\<forall>x \<in> set pre. R x b" and "\<forall>y \<in> set post. R b y"
  shows "sorted_wrt R (pre @ [b] @ post)"
  using assms by (simp add: sorted_wrt_append)

lemma replace_sorted:
  assumes ts: "tree_sorted t" and sh: "shape t" and p: "path_in t p (Leaf ln)"
    and lo: "\<forall>x \<in> set (fst (ctx p)). item_le x (L ln')"
    and hi: "\<forall>y \<in> set (snd (ctx p)). item_le (L ln') y"
    and ok: "item_ok (L ln')"
  shows "tree_sorted (plug (Leaf ln') p)"
proof -
  have f: "flat t = fst (ctx p) @ [L ln] @ snd (ctx p)"
    using flat_path [OF p sh] by simp
  have f': "flat (plug (Leaf ln') p) = fst (ctx p) @ [L ln'] @ snd (ctx p)"
    using flat_plug [OF p sh, of "Leaf ln'"] by simp
  from ts f have "sorted_wrt item_le (fst (ctx p) @ [L ln] @ snd (ctx p))"
    by (simp add: tree_sorted_def)
  then have "sorted_wrt item_le (fst (ctx p) @ [L ln'] @ snd (ctx p))"
    using lo hi by (rule sorted_wrt_replace)
  moreover have "\<forall>x \<in> set (fst (ctx p) @ [L ln'] @ snd (ctx p)). item_ok x"
    using ts f ok by (auto simp: tree_sorted_def)
  ultimately show ?thesis unfolding tree_sorted_def f' by simp
qed

lemma path_items:
  assumes ts: "tree_sorted t" and sh: "shape t" and p: "path_in t p (Leaf ln)"
  shows "(\<forall>x \<in> set (fst (ctx p)). item_le x (L ln))
       \<and> (\<forall>y \<in> set (snd (ctx p)). item_le (L ln) y)
       \<and> item_ok (L ln)
       \<and> sorted_wrt item_le (fst (ctx p) @ [L ln] @ snd (ctx p))"
proof -
  have f: "flat t = fst (ctx p) @ [L ln] @ snd (ctx p)"
    using flat_path [OF p sh] by simp
  with ts have s: "sorted_wrt item_le (fst (ctx p) @ [L ln] @ snd (ctx p))"
    and o: "\<forall>x \<in> set (fst (ctx p) @ [L ln] @ snd (ctx p)). item_ok x"
    by (simp_all add: tree_sorted_def)
  from s have "\<forall>x \<in> set (fst (ctx p)). item_le x (L ln)"
    and "\<forall>y \<in> set (snd (ctx p)). item_le (L ln) y"
    by (simp_all add: sorted_wrt_append)
  with s o show ?thesis by simp
qed

lemma live_fill:
  assumes "s < LEAF_KEYS" and "length (hashes ln) = LEAF_KEYS" and "length (keys ln) = LEAF_KEYS"
  shows "set (live_keys (ln\<lparr>hashes := (hashes ln)[s := h], keys := (keys ln)[s := key]\<rparr>))
           \<subseteq> insert key (set (live_keys ln))"
proof
  fix k assume "k \<in> set (live_keys (ln\<lparr>hashes := (hashes ln)[s := h], keys := (keys ln)[s := key]\<rparr>))"
  then obtain i where i: "i < LEAF_KEYS" "(hashes ln)[s := h] ! i \<noteq> 0" "k = (keys ln)[s := key] ! i"
    by (auto simp: live_keys_set)
  show "k \<in> insert key (set (live_keys ln))"
  proof (cases "i = s")
    case True
    with i assms show ?thesis by simp
  next
    case False
    with i have "hashes ln ! i \<noteq> 0" "k = keys ln ! i" by simp_all
    with i(1) show ?thesis by (auto simp: live_keys_set)
  qed
qed

lemma live_clear:
  assumes "s < LEAF_KEYS" and "length (hashes ln) = LEAF_KEYS" and "length (keys ln) = LEAF_KEYS"
  shows "set (live_keys (ln\<lparr>hashes := (hashes ln)[s := 0], keys := (keys ln)[s := k0]\<rparr>))
           \<subseteq> set (live_keys ln)"
proof
  fix k assume "k \<in> set (live_keys (ln\<lparr>hashes := (hashes ln)[s := 0], keys := (keys ln)[s := k0]\<rparr>))"
  then obtain i where i: "i < LEAF_KEYS" "(hashes ln)[s := 0] ! i \<noteq> 0" "k = (keys ln)[s := k0] ! i"
    by (auto simp: live_keys_set)
  from i(1,2) assms have "i \<noteq> s" by auto
  with i have "hashes ln ! i \<noteq> 0" "k = keys ln ! i" by simp_all
  with i(1) show "k \<in> set (live_keys ln)" by (auto simp: live_keys_set)
qed

lemma item_ok_update:
  "item_ok (L ln) \<Longrightarrow> nul_free key \<Longrightarrow> item_ok (L (ln\<lparr>hashes := hs, keys := (keys ln)[s := key]\<rparr>))"
  by (auto dest!: set_update_subset_insert [THEN subsetD])

lemma sorted_fill:
  assumes ts: "tree_sorted t" and sh: "shape t" and nk: "nul_free key"
    and d: "descend key t [] = Some (p, ln)" and s: "s < LEAF_KEYS"
  shows "tree_sorted (plug (Leaf (if hashes ln ! s = 0
           then ln\<lparr>hashes := (hashes ln)[s := h], keys := (keys ln)[s := key]\<rparr> else ln)) p)"
proof -
  let ?ln = "ln\<lparr>hashes := (hashes ln)[s := h], keys := (keys ln)[s := key]\<rparr>"
  from d have p: "path_in t p (Leaf ln)" by (rule descend_path_in) simp
  from p sh have shl: "shape (Leaf ln)" by (rule path_in_shape)
  note pi = path_items [OF ts sh p]
  from ts have srt: "sorted_wrt item_le (flat t)" and ok: "\<forall>x \<in> set (flat t). item_ok x"
    by (simp_all add: tree_sorted_def)
  have sides: "(\<forall>x \<in> set (fst (ctx p)). before x key) \<and> (\<forall>x \<in> set (snd (ctx p)). after key x)"
    by (rule descend_sides [OF d _ sh srt ok nk]) simp_all
  show ?thesis
  proof (cases "hashes ln ! s = 0")
    case False
    then show ?thesis using p sh by (simp add: plug_same ts)
  next
    case True
    have sub: "set (live_keys ?ln) \<subseteq> insert key (set (live_keys ln))"
      using s shl by (intro live_fill) simp_all
    have "tree_sorted (plug (Leaf ?ln) p)"
      using ts sh p
    proof (rule replace_sorted)
      show "\<forall>x \<in> set (fst (ctx p)). item_le x (L ?ln)"
      proof
        fix x assume x: "x \<in> set (fst (ctx p))"
        with pi sides have "item_le x (L ln)" "before x key" by blast+
        then have "\<forall>k \<in> set (live_keys ?ln). before x k"
          using sub by (blast intro: before_cand)
        then show "item_le x (L ?ln)" by (rule before_all_L)
      qed
      show "\<forall>y \<in> set (snd (ctx p)). item_le (L ?ln) y"
      proof
        fix y assume y: "y \<in> set (snd (ctx p))"
        with pi sides have "item_le (L ln) y" "after key y" by blast+
        then have "\<forall>k \<in> set (live_keys ?ln). after k y"
          using sub by (blast intro: after_cand)
        then show "item_le (L ?ln) y" by (rule after_all_L)
      qed
      show "item_ok (L ?ln)" using pi nk by (blast intro: item_ok_update)
    qed
    with True show ?thesis by simp
  qed
qed

lemma sorted_clear:
  assumes ts: "tree_sorted t" and sh: "shape t" and p: "path_in t p (Leaf ln)" and s: "s < LEAF_KEYS"
  shows "tree_sorted (plug (Leaf (ln\<lparr>hashes := (hashes ln)[s := 0], keys := (keys ln)[s := []]\<rparr>)) p)"
proof -
  let ?ln = "ln\<lparr>hashes := (hashes ln)[s := 0], keys := (keys ln)[s := []]\<rparr>"
  from p sh have shl: "shape (Leaf ln)" by (rule path_in_shape)
  note pi = path_items [OF ts sh p]
  have sub: "set (live_keys ?ln) \<subseteq> set (live_keys ln)"
    using s shl by (intro live_clear) simp_all
  show ?thesis
    using ts sh p
  proof (rule replace_sorted)
    show "\<forall>x \<in> set (fst (ctx p)). item_le x (L ?ln)"
      using pi sub by (blast intro: item_le_shrink_right)
    show "\<forall>y \<in> set (snd (ctx p)). item_le (L ?ln) y"
      using pi sub by (blast intro: item_le_shrink_left)
    show "item_ok (L ?ln)" using pi by (blast intro: item_ok_update nul_free_empty)
  qed
qed

lemma sorted_first:
  assumes "nul_free key"
  shows "tree_sorted (Leaf (new_KVLeafNode
           \<lparr>leaf := b, hashes := (hashes new_KVLeafNode)[0 := h],
            keys := (keys new_KVLeafNode)[0 := key]\<rparr>))"
  using assms
  by (auto simp: tree_sorted_def new_KVLeafNode_def nul_free_empty
           dest!: set_update_subset_insert [THEN subsetD])

lemma three_sorted:
  assumes srt: "sorted_wrt item_le (pre @ [L ln] @ post)"
    and lo: "\<forall>x \<in> set pre. before x key" and hi: "\<forall>y \<in> set post. after key y"
    and l3: "\<forall>k \<in> set (live_keys ln3). k \<in> insert key (set (live_keys ln)) \<and> k \<le> sk"
    and n3: "\<forall>k \<in> set (live_keys nln3). k \<in> insert key (set (live_keys ln)) \<and> sk < k"
    and skm: "sk \<in> insert key (set (live_keys ln))"
    and ab: "\<exists>k' \<in> insert key (set (live_keys ln)). sk < k'"
  shows "sorted_wrt item_le (pre @ [L ln3] @ [S sk] @ [L nln3] @ post)"
proof -
  from srt have sp: "sorted_wrt item_le pre" and so: "sorted_wrt item_le post"
    and pp: "\<forall>x \<in> set pre. \<forall>y \<in> set post. item_le x y"
    and pl: "\<forall>x \<in> set pre. item_le x (L ln)" and lp: "\<forall>y \<in> set post. item_le (L ln) y"
    by (simp_all add: sorted_wrt_append)
  have bc: "before x k" if "x \<in> set pre" "k \<in> insert key (set (live_keys ln))" for x k
    using pl lo that by (blast intro: before_cand)
  have ac: "after k y" if "y \<in> set post" "k \<in> insert key (set (live_keys ln))" for y k
    using lp hi that by (blast intro: after_cand)
  from ab obtain k' where k': "k' \<in> insert key (set (live_keys ln))" "sk < k'" by blast
  have a1: "\<forall>x \<in> set pre. item_le x (L ln3)" using bc l3 by (blast intro: before_all_L)
  have a2: "\<forall>x \<in> set pre. item_le x (S sk)" using bc skm by (blast intro: before_S)
  have a3: "\<forall>x \<in> set pre. item_le x (L nln3)" using bc n3 by (blast intro: before_all_L)
  have b1: "\<forall>y \<in> set post. item_le (L ln3) y" using ac l3 by (blast intro: after_all_L)
  have b2: "\<forall>y \<in> set post. item_le (S sk) y" using ac k' by (blast intro: after_S)
  have b3: "\<forall>y \<in> set post. item_le (L nln3) y" using ac n3 by (blast intro: after_all_L)
  have c1: "item_le (L ln3) (S sk)" using l3 by simp
  have c2: "item_le (S sk) (L nln3)" using n3 by simp
  have c3: "item_le (L ln3) (L nln3)" using l3 n3 by fastforce
  from sp so pp a1 a2 a3 b1 b2 b3 c1 c2 c3 show ?thesis
    by (simp add: sorted_wrt_append)
qed

section \<open>Put and Remove keep the order\<close>

lemma leaves_shape: "shape t \<Longrightarrow> ln \<in> set (leaves_of t) \<Longrightarrow> shape (Leaf ln)"
  by (induction t) auto

lemma leaf_item_ok:
  assumes "tree_sorted t" and "ln \<in> set (leaves_of t)"
  shows "\<forall>k \<in> set (keys ln). nul_free k"
proof -
  from assms(2) have "L ln \<in> set (flat t)" by (simp add: L_in_flat)
  with assms(1) have "item_ok (L ln)" unfolding tree_sorted_def by blast
  then show ?thesis by simp
qed

lemma mirror_exact:
  assumes inv: "engine_inv st" and ci: "cstring_inv st" and top: "tree_top st = Some t"
    and ln: "ln \<in> set (leaves_of t)" and i: "i < LEAF_KEYS" and nz: "hashes ln ! i \<noteq> 0"
  shows "keys ln ! i = slot_key (slots (pmpool st ! leaf ln) ! i)
       \<and> hashes ln ! i = PearsonHash (keys ln ! i)
       \<and> ph (slots (pmpool st ! leaf ln) ! i) = hashes ln ! i
       \<and> leaf ln < length (pmpool st)"
proof -
  let ?s = "slots (pmpool st ! leaf ln) ! i"
  from inv top ln have m: "mirrors (pmpool st) ln" and ok: "pool_ok (pmpool st)" and sh: "shape t"
    by (simp_all add: engine_inv_def tree_leaves_Some shaped_def)
  from m have a: "leaf ln < length (pmpool st)" by (simp add: mirrors_def)
  from m i have h: "hashes ln ! i = ph ?s" by (simp add: mirrors_def)
  from m i nz have c: "c_str (keys ln ! i) = key_string ?s" by (simp add: mirrors_def)
  from ok a i have sok: "slot_ok ?s" by (rule pool_ok_slot)
  from nz h have pz: "ph ?s \<noteq> 0" by simp
  with sok have ks: "key_string ?s = c_str (slot_key ?s)" by (simp add: slot_ok_key_string)
  from ci a i have n1: "nul_free (slot_key ?s)" by (simp add: cstring_inv_def pool_nul_free_def)
  from ci top have "tree_sorted t" by (simp add: cstring_inv_def)
  then have "\<forall>k \<in> set (keys ln). nul_free k" using ln by (rule leaf_item_ok)
  moreover from sh ln have "shape (Leaf ln)" by (rule leaves_shape)
  ultimately have n2: "nul_free (keys ln ! i)" using i by simp
  from c ks n1 n2 have e: "keys ln ! i = slot_key ?s" by (simp add: c_str_nul_free)
  from sok pz have "ph ?s = PearsonHash (slot_key ?s)" by (simp add: slot_ok_def)
  with e h a show ?thesis by simp
qed

lemma candidates_distinct:
  assumes inv: "engine_inv st" and ci: "cstring_inv st" and top: "tree_top st = Some t"
    and ln: "ln \<in> set (leaves_of t)" and nk: "nul_free key"
    and full: "\<forall>j < LEAF_KEYS. hashes ln ! j \<noteq> 0"
    and nm: "\<forall>j < LEAF_KEYS. \<not> (hashes ln ! j = PearsonHash key \<and> c_str (keys ln ! j) = c_str key)"
  shows "distinct (map c_str (keys ln @ [key]))"
proof -
  from inv top ln have u: "unique_keys ln" and sh: "shape t"
    by (simp_all add: engine_inv_def tree_leaves_Some shaped_def)
  from sh ln have "shape (Leaf ln)" by (rule leaves_shape)
  then have len: "length (keys ln) = LEAF_KEYS" by simp
  from ci top have "tree_sorted t" by (simp add: cstring_inv_def)
  then have ok: "\<forall>k \<in> set (keys ln). nul_free k" using ln by (rule leaf_item_ok)
  have hk: "hashes ln ! i = PearsonHash (keys ln ! i)" if "i < LEAF_KEYS" for i
    using mirror_exact [OF inv ci top ln that] full that by simp
  have d: "distinct (map c_str (keys ln))"
    unfolding distinct_conv_nth
  proof (intro allI impI)
    fix i j assume i: "i < length (map c_str (keys ln))" and j: "j < length (map c_str (keys ln))"
      and ij: "i \<noteq> j"
    from i j len have i': "i < LEAF_KEYS" and j': "j < LEAF_KEYS" by simp_all
    show "map c_str (keys ln) ! i \<noteq> map c_str (keys ln) ! j"
    proof (cases "hashes ln ! i = hashes ln ! j")
      case True
      with u i' j' ij full have "c_str (keys ln ! i) \<noteq> c_str (keys ln ! j)"
        unfolding unique_keys_def by blast
      with i j show ?thesis by simp
    next
      case False
      with hk [OF i'] hk [OF j'] have "keys ln ! i \<noteq> keys ln ! j" by auto
      moreover have "nul_free (keys ln ! i)" "nul_free (keys ln ! j)"
        using ok i j by simp_all
      ultimately have "c_str (keys ln ! i) \<noteq> c_str (keys ln ! j)"
        by (simp add: c_str_nul_free)
      with i j show ?thesis by simp
    qed
  qed
  have "c_str key \<notin> set (map c_str (keys ln))"
  proof
    assume "c_str key \<in> set (map c_str (keys ln))"
    then obtain j where j: "j < LEAF_KEYS" "c_str (keys ln ! j) = c_str key"
      using len by (auto simp: in_set_conv_nth)
    moreover have "nul_free (keys ln ! j)" using ok j(1) len by simp
    ultimately have "keys ln ! j = key" using nk by (simp add: c_str_nul_free)
    with hk [OF j(1)] have "hashes ln ! j = PearsonHash key" by simp
    with nm j show False by blast
  qed
  with d show ?thesis by simp
qed

lemma split_live:
  assumes sh: "shape (Leaf ln)" and ok: "item_ok (L ln)" and nk: "nul_free key"
    and ns: "nul_free sk"
    and sb: "split_body None sk ln (new_KVLeafNode\<lparr>leaf := b\<rparr>) h key val pool
               = (e, (ln3, nln3), pool3)"
  shows "(\<forall>k \<in> set (live_keys ln3). k \<in> insert key (set (live_keys ln)) \<and> k \<le> sk)
       \<and> (\<forall>k \<in> set (live_keys nln3). k \<in> insert key (set (live_keys ln)) \<and> sk < k)
       \<and> item_ok (L ln3) \<and> item_ok (L nln3)"
proof -
  from sb obtain ln1 nln1 pool1 tgt where
    mv: "move_slots LEAF_KEYS sk ln (new_KVLeafNode\<lparr>leaf := b\<rparr>) pool = (ln1, nln1, pool1)"
    and f: "LeafFillEmptySlot None (if strcmp key sk > 0 then nln1 else ln1) h key val pool1
              = (e, tgt, pool3)"
    and e3: "ln3 = (if strcmp key sk > 0 then ln1 else tgt)"
    and n3: "nln3 = (if strcmp key sk > 0 then tgt else nln1)"
    by (rule split_body_cases)
  note mm = move_slots_mirror [OF sh mv]
  from sh have len: "length (hashes ln) = LEAF_KEYS" "length (keys ln) = LEAF_KEYS" by simp_all
  from move_slots_lengths [OF mv] len
  have l1: "length (hashes ln1) = LEAF_KEYS" "length (keys ln1) = LEAF_KEYS"
    "length (hashes nln1) = LEAF_KEYS" "length (keys nln1) = LEAF_KEYS"
    by (simp_all add: new_KVLeafNode_def)
  have nf: "nul_free (keys ln ! i)" if "i < LEAF_KEYS" for i using ok len that by simp
  have cmp_le: "keys ln ! i \<le> sk" if "i < LEAF_KEYS" "\<not> strcmp (keys ln ! i) sk > 0" for i
  proof -
    from that(2) have "c_str (keys ln ! i) \<le> c_str sk" by (simp add: strcmp_greater not_less)
    with nf [OF that(1)] ns show ?thesis by (simp add: c_str_nul_free)
  qed
  have cmp_gt: "sk < keys ln ! i" if "i < LEAF_KEYS" "strcmp (keys ln ! i) sk > 0" for i
  proof -
    from that(2) have "c_str sk < c_str (keys ln ! i)" by (simp add: strcmp_greater)
    with nf [OF that(1)] ns show ?thesis by (simp add: c_str_nul_free)
  qed
  have a1: "\<forall>k \<in> set (live_keys ln1). k \<in> set (live_keys ln) \<and> k \<le> sk"
  proof
    fix k assume "k \<in> set (live_keys ln1)"
    then obtain i where i: "i < LEAF_KEYS" "hashes ln1 ! i \<noteq> 0" "k = keys ln1 ! i"
      by (auto simp: live_keys_set)
    from i(2) mm(1) [of i] i(1) have nmv: "\<not> strcmp (keys ln ! i) sk > 0"
      and h: "hashes ln ! i \<noteq> 0" by (auto split: if_splits)
    with mm(2) [of i] i have k: "k = keys ln ! i" by simp
    with i(1) h have "k \<in> set (live_keys ln)" by (auto simp: live_keys_set)
    moreover from cmp_le [OF i(1) nmv] k have "k \<le> sk" by simp
    ultimately show "k \<in> set (live_keys ln) \<and> k \<le> sk" by simp
  qed
  have a2: "\<forall>k \<in> set (live_keys nln1). k \<in> set (live_keys ln) \<and> sk < k"
  proof
    fix k assume "k \<in> set (live_keys nln1)"
    then obtain i where i: "i < LEAF_KEYS" "hashes nln1 ! i \<noteq> 0" "k = keys nln1 ! i"
      by (auto simp: live_keys_set)
    from i(2) mm(3) [OF i(1)] have mvd: "strcmp (keys ln ! i) sk > 0"
      and h: "hashes ln ! i \<noteq> 0" by (auto split: if_splits)
    with mm(4) [OF i(1)] i have k: "k = keys ln ! i" by simp
    with i(1) h have "k \<in> set (live_keys ln)" by (auto simp: live_keys_set)
    moreover from cmp_gt [OF i(1) mvd] k have "sk < k" by simp
    ultimately show "k \<in> set (live_keys ln) \<and> sk < k" by simp
  qed
  have o1: "item_ok (L ln1)"
  proof -
    have "nul_free k" if "k \<in> set (keys ln1)" for k
    proof -
      from that l1 obtain i where i: "i < LEAF_KEYS" "k = keys ln1 ! i"
        by (auto simp: in_set_conv_nth)
      with mm(2) [of i] nf [OF i(1)] show ?thesis by (auto simp: nul_free_empty)
    qed
    then show ?thesis by simp
  qed
  have o2: "item_ok (L nln1)"
  proof -
    have "nul_free k" if "k \<in> set (keys nln1)" for k
    proof -
      from that l1 obtain i where i: "i < LEAF_KEYS" "k = keys nln1 ! i"
        by (auto simp: in_set_conv_nth)
      with mm(4) [OF i(1)] nf [OF i(1)] show ?thesis by (auto simp: nul_free_empty)
    qed
    then show ?thesis by simp
  qed
  let ?t0 = "if strcmp key sk > 0 then nln1 else ln1"
  have lt0: "length (hashes ?t0) = LEAF_KEYS" "length (keys ?t0) = LEAF_KEYS"
    using l1 by simp_all
  have ot0: "item_ok (L ?t0)" using o1 o2 by simp
  have tg: "set (live_keys tgt) \<subseteq> insert key (set (live_keys ?t0)) \<and> item_ok (L tgt)"
    using f
  proof (cases rule: LeafFillEmptySlot_cases)
    case 1
    with ot0 show ?thesis by auto
  next
    case (2 t)
    from 2(3) 2(2) have "tgt = ?t0\<lparr>hashes := (hashes ?t0)[t := h], keys := (keys ?t0)[t := key]\<rparr>"
      by (simp add: fill_results)
    moreover have "set (live_keys (?t0\<lparr>hashes := (hashes ?t0)[t := h], keys := (keys ?t0)[t := key]\<rparr>))
        \<subseteq> insert key (set (live_keys ?t0))"
      using 2(1) lt0 by (rule live_fill)
    moreover have "item_ok (L (?t0\<lparr>hashes := (hashes ?t0)[t := h], keys := (keys ?t0)[t := key]\<rparr>))"
      using ot0 nk by (rule item_ok_update)
    ultimately show ?thesis by simp
  qed
  show ?thesis
  proof (cases "strcmp key sk > 0")
    case True
    then have "c_str sk < c_str key" by (simp add: strcmp_greater)
    with nk ns have g: "sk < key" by (simp add: c_str_nul_free)
    from True e3 n3 have eq: "ln3 = ln1" "nln3 = tgt" by simp_all
    from tg True have "set (live_keys tgt) \<subseteq> insert key (set (live_keys nln1))" "item_ok (L tgt)"
      by simp_all
    with a1 a2 o1 g show ?thesis unfolding eq by blast
  next
    case False
    then have "c_str key \<le> c_str sk" by (simp add: strcmp_greater not_less)
    with nk ns have g: "key \<le> sk" by (simp add: c_str_nul_free)
    from False e3 n3 have eq: "ln3 = tgt" "nln3 = nln1" by simp_all
    from tg False have "set (live_keys tgt) \<subseteq> insert key (set (live_keys ln1))" "item_ok (L tgt)"
      by simp_all
    with a1 a2 o2 g show ?thesis unfolding eq by blast
  qed
qed

lemma sorted_split:
  assumes inv: "engine_inv st" and ci: "cstring_inv st" and nk: "nul_free key"
    and ls: "LeafSearch key st = Some (p, ln)"
    and full: "\<forall>j < LEAF_KEYS. hashes ln ! j \<noteq> 0"
    and nm: "\<forall>j < LEAF_KEYS. \<not> (hashes ln ! j = PearsonHash key \<and> c_str (keys ln ! j) = c_str key)"
    and sb: "split_body None (split_key_of ln key) ln (new_KVLeafNode\<lparr>leaf := b\<rparr>)
               h key val pool = (e, (ln3, nln3), pool3)"
  shows "tree_sorted (InnerUpdateAfterSplit (Leaf ln3) (Leaf nln3) (split_key_of ln key) p)"
proof -
  let ?sk = "split_key_of ln key"
  from inv ls obtain t where t: "tree_top st = Some t" "path_in t p (Leaf ln)"
    "ln \<in> set (leaves_of t)" "shape (Leaf ln)" "shape t"
    by (rule LeafSearch_leaf)
  from ci t(1) have ts: "tree_sorted t" by (simp add: cstring_inv_def)
  then have srt: "sorted_wrt item_le (flat t)" and ok: "\<forall>x \<in> set (flat t). item_ok x"
    by (simp_all add: tree_sorted_def)
  note pi = path_items [OF ts t(5) t(2)]
  from pi have okl: "item_ok (L ln)" by simp
  from LeafSearch_sides [OF ls t(1) t(5) srt ok nk]
  have lo: "\<forall>x \<in> set (fst (ctx p)). before x key" and hi: "\<forall>x \<in> set (snd (ctx p)). after key x"
    by simp_all
  from t(4) have len: "length (keys ln) = LEAF_KEYS" "length (hashes ln) = LEAF_KEYS" by simp_all
  have live: "set (live_keys ln) = set (keys ln)"
  proof
    show "set (live_keys ln) \<subseteq> set (keys ln)" using len by (auto simp: live_keys_set)
    show "set (keys ln) \<subseteq> set (live_keys ln)"
    proof
      fix k assume "k \<in> set (keys ln)"
      then obtain i where "i < LEAF_KEYS" "k = keys ln ! i" using len by (auto simp: in_set_conv_nth)
      with full show "k \<in> set (live_keys ln)" by (auto simp: live_keys_set)
    qed
  qed
  have skm: "?sk \<in> insert key (set (live_keys ln))"
    using split_key_mem [OF len(1), of key] live by auto
  have cn: "nul_free k" if "k \<in> insert key (set (live_keys ln))" for k
    using that nk okl live by auto
  then have ns: "nul_free ?sk" using skm by blast
  have d: "distinct (map c_str (keys ln @ [key]))"
    using inv ci t(1) t(3) nk full nm by (rule candidates_distinct)
  from split_key_above [OF len(1) d] obtain k' where
    k': "k' \<in> set (keys ln @ [key])" "c_str ?sk < c_str k'" by blast
  from k'(1) live have k'm: "k' \<in> insert key (set (live_keys ln))" by auto
  with k'(2) ns cn have "?sk < k'" by (simp add: c_str_nul_free)
  with k'm have ab: "\<exists>k' \<in> insert key (set (live_keys ln)). ?sk < k'" by blast
  from split_live [OF t(4) okl nk ns sb]
  have l3: "\<forall>k \<in> set (live_keys ln3). k \<in> insert key (set (live_keys ln)) \<and> k \<le> ?sk"
    and n3: "\<forall>k \<in> set (live_keys nln3). k \<in> insert key (set (live_keys ln)) \<and> ?sk < k"
    and o3: "item_ok (L ln3)" "item_ok (L nln3)" by simp_all
  from pi have s0: "sorted_wrt item_le (fst (ctx p) @ [L ln] @ snd (ctx p))" by simp
  have H: "sorted_wrt item_le (fst (ctx p) @ [L ln3] @ [S ?sk] @ [L nln3] @ snd (ctx p))"
    using s0 lo hi l3 n3 skm ab by (rule three_sorted)
  have fl: "flat (InnerUpdateAfterSplit (Leaf ln3) (Leaf nln3) ?sk p)
          = fst (ctx p) @ flat (Leaf ln3) @ [S ?sk] @ flat (Leaf nln3) @ snd (ctx p)"
    using t(2) t(5) by (rule IUAS_flat) (use H in simp)
  have f0: "flat t = fst (ctx p) @ [L ln] @ snd (ctx p)"
    using flat_path [OF t(2) t(5)] by simp
  have "\<forall>x \<in> set (fst (ctx p) @ [L ln3] @ [S ?sk] @ [L nln3] @ snd (ctx p)). item_ok x"
    using ok f0 o3 ns by auto
  with H fl show ?thesis by (simp add: tree_sorted_def)
qed

lemma cstring_Put:
  assumes inv: "engine_inv st" and ci: "cstring_inv st" and nk: "nul_free key"
  shows "cstring_inv (snd (Put None key val st))"
proof -
  from ci have pnf: "pool_nul_free (pmpool st)" by (simp add: cstring_inv_def)
  have p: "pool_nul_free (pmpool (snd (Put None key val st)))"
    using inv pnf nk by (rule pnf_Put)
  have "case tree_top (snd (Put None key val st)) of None \<Rightarrow> True | Some t \<Rightarrow> tree_sorted t"
    using inv
  proof (cases rule: Put_cases [where key = key and val = val])
    case (first b pool1 pre1)
    then show ?thesis using sorted_first [OF nk] by simp
  next
    case (fill p ln s)
    from inv fill(1) obtain t where t: "tree_top st = Some t" "shape t"
      by (rule LeafSearch_leaf)
    from ci t(1) have ts: "tree_sorted t" by (simp add: cstring_inv_def)
    from fill(1) t(1) have d: "descend key t [] = Some (p, ln)" by (simp add: LeafSearch_def)
    from sorted_fill [OF ts t(2) nk d fill(2)] fill(4) show ?thesis by simp
  next
    case (split p ln b pool1 pre1 ln3 nln3 pool3)
    from sorted_split [OF inv ci nk split(1,2,3,5)] split(6) show ?thesis by simp
  qed
  with p show ?thesis by (simp add: cstring_inv_def)
qed

lemma cstring_Remove:
  assumes inv: "engine_inv st" and ci: "cstring_inv st"
  shows "cstring_inv (snd (Remove None key st))"
proof -
  from ci have pnf: "pool_nul_free (pmpool st)" by (simp add: cstring_inv_def)
  have p: "pool_nul_free (pmpool (snd (Remove None key st)))" using pnf by (rule pnf_Remove)
  have "case tree_top (snd (Remove None key st)) of None \<Rightarrow> True | Some t \<Rightarrow> tree_sorted t"
  proof (cases "LeafSearch key st")
    case None
    with ci show ?thesis by (simp add: Remove_results cstring_inv_def)
  next
    case (Some pl)
    obtain p ln where pl: "pl = (p, ln)" by (cases pl)
    with Some have ls: "LeafSearch key st = Some (p, ln)" by simp
    show ?thesis
    proof (cases "find_slot LEAF_KEYS ln (PearsonHash key) key")
      case None
      with ci ls show ?thesis by (simp add: Remove_results cstring_inv_def)
    next
      case (Some s)
      from inv ls obtain t where t: "tree_top st = Some t" "path_in t p (Leaf ln)" "shape t"
        by (rule LeafSearch_leaf)
      from ci t(1) have ts: "tree_sorted t" by (simp add: cstring_inv_def)
      from find_slot_Some [OF Some] have s: "s < LEAF_KEYS" by simp
      from sorted_clear [OF ts t(3) t(2) s] ls Some show ?thesis
        by (simp add: Remove_results)
    qed
  qed
  with p show ?thesis by (simp add: cstring_inv_def)
qed

section \<open>The keys of the persistent leaves\<close>

lemma sorted_wrt_total:
  assumes "sorted_wrt R xs" and "x \<in> set xs" and "y \<in> set xs" and "x \<noteq> y"
  shows "R x y \<or> R y x"
proof -
  from assms(2,3) obtain i j where i: "i < length xs" "xs ! i = x" and j: "j < length xs" "xs ! j = y"
    by (auto simp: in_set_conv_nth)
  with assms(4) have "i \<noteq> j" by auto
  then consider "i < j" | "j < i" by linarith
  then show ?thesis
  proof cases
    case 1
    have "R (xs ! i) (xs ! j)" using assms(1) 1 j(1) by (rule sorted_wrt_nth_less)
    with i j show ?thesis by simp
  next
    case 2
    have "R (xs ! j) (xs ! i)" using assms(1) 2 i(1) by (rule sorted_wrt_nth_less)
    with i j show ?thesis by simp
  qed
qed

lemma live_keys_pool:
  assumes inv: "engine_inv st" and ci: "cstring_inv st" and top: "tree_top st = Some t"
    and ln: "ln \<in> set (leaves_of t)"
  shows "set (live_keys ln) = leaf_keys (pmpool st) (leaf ln)"
proof -
  from inv top ln have m: "mirrors (pmpool st) ln"
    by (simp add: engine_inv_def tree_leaves_Some)
  have h: "hashes ln ! i = ph (slots (pmpool st ! leaf ln) ! i)" if "i < LEAF_KEYS" for i
    using m that by (simp add: mirrors_def)
  have k: "keys ln ! i = slot_key (slots (pmpool st ! leaf ln) ! i)"
    if "i < LEAF_KEYS" "hashes ln ! i \<noteq> 0" for i
    using mirror_exact [OF inv ci top ln that] by simp
  show ?thesis
    unfolding live_keys_set leaf_keys_def
  proof (intro set_eqI iffI)
    fix x assume "x \<in> {keys ln ! i | i. i < LEAF_KEYS \<and> hashes ln ! i \<noteq> 0}"
    then obtain i where i: "i < LEAF_KEYS" "hashes ln ! i \<noteq> 0" "x = keys ln ! i" by blast
    with h [OF i(1)] k [OF i(1,2)]
    have "x = slot_key (slots (pmpool st ! leaf ln) ! i) \<and> i < LEAF_KEYS
            \<and> ph (slots (pmpool st ! leaf ln) ! i) \<noteq> 0" by simp
    then show "x \<in> {slot_key (slots (pmpool st ! leaf ln) ! i) | i.
                 i < LEAF_KEYS \<and> ph (slots (pmpool st ! leaf ln) ! i) \<noteq> 0}"
      by blast
  next
    fix x assume "x \<in> {slot_key (slots (pmpool st ! leaf ln) ! i) | i.
                 i < LEAF_KEYS \<and> ph (slots (pmpool st ! leaf ln) ! i) \<noteq> 0}"
    then obtain i where i: "i < LEAF_KEYS" "ph (slots (pmpool st ! leaf ln) ! i) \<noteq> 0"
      "x = slot_key (slots (pmpool st ! leaf ln) ! i)" by blast
    from i(2) h [OF i(1)] have nz: "hashes ln ! i \<noteq> 0" by simp
    with k [OF i(1) nz] i have "x = keys ln ! i \<and> i < LEAF_KEYS \<and> hashes ln ! i \<noteq> 0" by simp
    then show "x \<in> {keys ln ! i | i. i < LEAF_KEYS \<and> hashes ln ! i \<noteq> 0}"
      by blast
  qed
qed

lemma leaf_keys_free:
  assumes inv: "engine_inv st" and a: "a \<in> set (leaves_prealloc st)"
  shows "leaf_keys (pmpool st) a = {}"
proof -
  from inv a have e: "\<forall>s \<in> set (slots (pmpool st ! a)). ph s = 0"
    and al: "a < length (pmpool st)" and ok: "pool_ok (pmpool st)"
    by (auto simp: engine_inv_def)
  from ok al have "length (slots (pmpool st ! a)) = LEAF_KEYS" by (rule pool_ok_nth)
  with e have "\<forall>i < LEAF_KEYS. ph (slots (pmpool st ! a) ! i) = 0" by simp
  then show ?thesis by (auto simp: leaf_keys_def)
qed

lemma engine_pool_separated:
  assumes inv: "engine_inv st" and ci: "cstring_inv st"
  shows "pool_separated (pmpool st)"
  unfolding pool_separated_def
proof (intro allI impI)
  fix a b assume a: "a < length (pmpool st)" and b: "b < length (pmpool st)" and ab: "a \<noteq> b"
  let ?goal = "(\<forall>x \<in> leaf_keys (pmpool st) a. \<forall>y \<in> leaf_keys (pmpool st) b. x < y)
        \<or> (\<forall>x \<in> leaf_keys (pmpool st) a. \<forall>y \<in> leaf_keys (pmpool st) b. y < x)"
  from inv a b have cov: "a \<in> set (map leaf (tree_leaves st)) \<union> set (leaves_prealloc st)"
    "b \<in> set (map leaf (tree_leaves st)) \<union> set (leaves_prealloc st)"
    by (simp_all add: engine_inv_def)
  show ?goal
  proof (cases "a \<in> set (leaves_prealloc st) \<or> b \<in> set (leaves_prealloc st)")
    case True
    then show ?thesis using leaf_keys_free [OF inv] by auto
  next
    case False
    with cov obtain la lb where la: "la \<in> set (tree_leaves st)" "leaf la = a"
      and lb: "lb \<in> set (tree_leaves st)" "leaf lb = b" by auto
    then obtain t where top: "tree_top st = Some t"
      by (cases "tree_top st") (auto simp: tree_leaves_def)
    with la lb have ma: "la \<in> set (leaves_of t)" and mb: "lb \<in> set (leaves_of t)"
      by (simp_all add: tree_leaves_Some)
    from ci top have "sorted_wrt item_le (flat t)" by (simp add: cstring_inv_def tree_sorted_def)
    moreover from ma have "L la \<in> set (flat t)" by (simp add: L_in_flat)
    moreover from mb have "L lb \<in> set (flat t)" by (simp add: L_in_flat)
    moreover from la lb ab have "L la \<noteq> L lb" by auto
    ultimately have "item_le (L la) (L lb) \<or> item_le (L lb) (L la)" by (rule sorted_wrt_total)
    moreover have "set (live_keys la) = leaf_keys (pmpool st) a"
      using live_keys_pool [OF inv ci top ma] la by simp
    moreover have "set (live_keys lb) = leaf_keys (pmpool st) b"
      using live_keys_pool [OF inv ci top mb] lb by simp
    ultimately show ?thesis by auto
  qed
qed

section \<open>The recovered descriptors\<close>

lemma recover_slots_max:
  assumes "n \<le> length (hashes ln)" and "snd (recover_slots n lf ln mk) = Some m"
  shows "(mk = Some m \<or> (\<exists>i < n. ph (slots lf ! i) \<noteq> 0 \<and> m = key_string (slots lf ! i)))
       \<and> (\<forall>m0. mk = Some m0 \<longrightarrow> c_str m0 \<le> c_str m)
       \<and> (\<forall>i < n. ph (slots lf ! i) \<noteq> 0 \<longrightarrow> c_str (key_string (slots lf ! i)) \<le> c_str m)"
  using assms
proof (induction n arbitrary: ln mk)
  case 0
  then show ?case by simp
next
  case (Suc n)
  let ?s = "slots lf ! n"
  let ?ln = "ln\<lparr>hashes := (hashes ln)[n := ph ?s]\<rparr>"
  from Suc.prems(1) have hn: "hashes ?ln ! n = ph ?s" and len: "n \<le> length (hashes ?ln)" by simp_all
  show ?case
  proof (cases "ph ?s = 0")
    case True
    with Suc.prems(2) hn have r: "snd (recover_slots n lf ?ln mk) = Some m" by (simp add: Let_def)
    from Suc.IH [OF len r] True show ?thesis by (auto simp: less_Suc_eq)
  next
    case False
    let ?key = "key_string ?s"
    let ?mk = "case mk of None \<Rightarrow> Some ?key
               | Some m0 \<Rightarrow> if strcmp m0 ?key < 0 then Some ?key else Some m0"
    let ?ln2 = "?ln\<lparr>keys := (keys ?ln)[n := ?key]\<rparr>"
    from Suc.prems(2) hn False have r: "snd (recover_slots n lf ?ln2 ?mk) = Some m"
      by (simp add: Let_def)
    have len2: "n \<le> length (hashes ?ln2)" using len by simp
    note ih = Suc.IH [OF len2 r]
    have "\<exists>m1. ?mk = Some m1" by (cases mk) simp_all
    then obtain m1 where m1: "?mk = Some m1" by blast
    have k1: "c_str ?key \<le> c_str m1"
      using m1 by (cases mk) (auto simp: strcmp_less not_less split: if_splits)
    have k0: "c_str m0 \<le> c_str m1" if "mk = Some m0" for m0
      using m1 that by (auto simp: strcmp_less split: if_splits)
    have src: "m1 = ?key \<or> mk = Some m1"
      using m1 by (cases mk) (auto split: if_splits)
    from ih m1 have le: "c_str m1 \<le> c_str m" by simp
    have a: "mk = Some m \<or> (\<exists>i < Suc n. ph (slots lf ! i) \<noteq> 0 \<and> m = key_string (slots lf ! i))"
    proof -
      from ih have "?mk = Some m \<or> (\<exists>i < n. ph (slots lf ! i) \<noteq> 0 \<and> m = key_string (slots lf ! i))"
        by simp
      then show ?thesis
      proof
        assume "?mk = Some m"
        with m1 have "m1 = m" by simp
        with src False show ?thesis by auto
      next
        assume "\<exists>i < n. ph (slots lf ! i) \<noteq> 0 \<and> m = key_string (slots lf ! i)"
        then show ?thesis by (auto simp: less_Suc_eq)
      qed
    qed
    have b: "\<forall>m0. mk = Some m0 \<longrightarrow> c_str m0 \<le> c_str m"
      using k0 le by (blast intro: order_trans)
    have c: "\<forall>i < Suc n. ph (slots lf ! i) \<noteq> 0 \<longrightarrow> c_str (key_string (slots lf ! i)) \<le> c_str m"
    proof (intro allI impI)
      fix i assume i: "i < Suc n" and nz: "ph (slots lf ! i) \<noteq> 0"
      show "c_str (key_string (slots lf ! i)) \<le> c_str m"
      proof (cases "i = n")
        case True
        with k1 le show ?thesis by (simp only: order_trans)
      next
        case False
        with i have "i < n" by simp
        with ih nz show ?thesis by simp
      qed
    qed
    from a b c show ?thesis by blast
  qed
qed

lemma recovered_live_keys:
  "set (live_keys (recovered pool a))
      = {key_string (slots (pool ! a) ! i) | i. i < LEAF_KEYS \<and> ph (slots (pool ! a) ! i) \<noteq> 0}"
  unfolding live_keys_set
proof (intro set_eqI iffI)
  fix x assume "x \<in> {keys (recovered pool a) ! i | i.
                      i < LEAF_KEYS \<and> hashes (recovered pool a) ! i \<noteq> 0}"
  then obtain i where i: "i < LEAF_KEYS" "hashes (recovered pool a) ! i \<noteq> 0"
    "x = keys (recovered pool a) ! i" by blast
  then have "x = key_string (slots (pool ! a) ! i) \<and> i < LEAF_KEYS
       \<and> ph (slots (pool ! a) ! i) \<noteq> 0" by (simp add: recovered_props)
  then show "x \<in> {key_string (slots (pool ! a) ! i) | i.
                      i < LEAF_KEYS \<and> ph (slots (pool ! a) ! i) \<noteq> 0}" by blast
next
  fix x assume "x \<in> {key_string (slots (pool ! a) ! i) | i.
                      i < LEAF_KEYS \<and> ph (slots (pool ! a) ! i) \<noteq> 0}"
  then obtain i where i: "i < LEAF_KEYS" "ph (slots (pool ! a) ! i) \<noteq> 0"
    "x = key_string (slots (pool ! a) ! i)" by blast
  then have "x = keys (recovered pool a) ! i \<and> i < LEAF_KEYS
       \<and> hashes (recovered pool a) ! i \<noteq> 0" by (simp add: recovered_props)
  then show "x \<in> {keys (recovered pool a) ! i | i.
                      i < LEAF_KEYS \<and> hashes (recovered pool a) ! i \<noteq> 0}" by blast
qed

lemma recovered_live:
  assumes ok: "pool_ok pool" and pnf: "pool_nul_free pool" and a: "a < length pool"
  shows "set (live_keys (recovered pool a)) = leaf_keys pool a"
proof -
  have ks: "key_string (slots (pool ! a) ! i) = slot_key (slots (pool ! a) ! i)"
    if "i < LEAF_KEYS" "ph (slots (pool ! a) ! i) \<noteq> 0" for i
  proof -
    from ok a that(1) have "slot_ok (slots (pool ! a) ! i)" by (rule pool_ok_slot)
    with that(2) have "key_string (slots (pool ! a) ! i) = c_str (slot_key (slots (pool ! a) ! i))"
      by (simp add: slot_ok_key_string)
    moreover from pnf a that(1) have "nul_free (slot_key (slots (pool ! a) ! i))"
      by (simp add: pool_nul_free_def)
    ultimately show ?thesis by (simp add: c_str_nul_free)
  qed
  have lk: "set (live_keys (recovered pool a))
      = {key_string (slots (pool ! a) ! i) | i. i < LEAF_KEYS \<and> ph (slots (pool ! a) ! i) \<noteq> 0}"
    by (rule recovered_live_keys)
  show ?thesis
    unfolding lk leaf_keys_def
  proof (intro set_eqI iffI)
    fix x assume "x \<in> {key_string (slots (pool ! a) ! i) | i.
                        i < LEAF_KEYS \<and> ph (slots (pool ! a) ! i) \<noteq> 0}"
    then obtain i where i: "i < LEAF_KEYS" "ph (slots (pool ! a) ! i) \<noteq> 0"
      "x = key_string (slots (pool ! a) ! i)" by blast
    with ks [OF i(1,2)] have "x = slot_key (slots (pool ! a) ! i) \<and> i < LEAF_KEYS
       \<and> ph (slots (pool ! a) ! i) \<noteq> 0" by simp
    then show "x \<in> {slot_key (slots (pool ! a) ! i) | i.
                        i < LEAF_KEYS \<and> ph (slots (pool ! a) ! i) \<noteq> 0}" by blast
  next
    fix x assume "x \<in> {slot_key (slots (pool ! a) ! i) | i.
                        i < LEAF_KEYS \<and> ph (slots (pool ! a) ! i) \<noteq> 0}"
    then obtain i where i: "i < LEAF_KEYS" "ph (slots (pool ! a) ! i) \<noteq> 0"
      "x = slot_key (slots (pool ! a) ! i)" by blast
    with ks [OF i(1,2)] have "x = key_string (slots (pool ! a) ! i) \<and> i < LEAF_KEYS
       \<and> ph (slots (pool ! a) ! i) \<noteq> 0" by simp
    then show "x \<in> {key_string (slots (pool ! a) ! i) | i.
                        i < LEAF_KEYS \<and> ph (slots (pool ! a) ! i) \<noteq> 0}" by blast
  qed
qed

lemma recovered_max:
  assumes ok: "pool_ok pool" and pnf: "pool_nul_free pool" and a: "a < length pool"
    and mk: "max_key_of pool a = Some m"
  shows "leaf_max (recovered pool a, m)"
proof -
  let ?ln0 = "new_KVLeafNode\<lparr>leaf := a\<rparr>"
  have len: "LEAF_KEYS \<le> length (hashes ?ln0)" by (simp add: new_KVLeafNode_def)
  from mk have r: "snd (recover_slots LEAF_KEYS (pool ! a) ?ln0 None) = Some m"
    by (simp add: max_key_of_def)
  from recover_slots_max [OF len r]
  have src: "\<exists>i < LEAF_KEYS. ph (slots (pool ! a) ! i) \<noteq> 0 \<and> m = key_string (slots (pool ! a) ! i)"
    and mx: "\<forall>i < LEAF_KEYS. ph (slots (pool ! a) ! i) \<noteq> 0
               \<longrightarrow> c_str (key_string (slots (pool ! a) ! i)) \<le> c_str m"
    by simp_all
  from src obtain i0 where i0: "i0 < LEAF_KEYS" "ph (slots (pool ! a) ! i0) \<noteq> 0"
    "m = key_string (slots (pool ! a) ! i0)" by blast
  have lk: "set (live_keys (recovered pool a))
      = {key_string (slots (pool ! a) ! i) | i. i < LEAF_KEYS \<and> ph (slots (pool ! a) ! i) \<noteq> 0}"
    by (rule recovered_live_keys)
  have "m \<in> set (live_keys (recovered pool a))" unfolding lk using i0 by blast
  moreover have "\<forall>k \<in> set (live_keys (recovered pool a)). k \<le> m"
  proof
    fix k assume "k \<in> set (live_keys (recovered pool a))"
    then obtain i where i: "i < LEAF_KEYS" "ph (slots (pool ! a) ! i) \<noteq> 0"
      "k = key_string (slots (pool ! a) ! i)" unfolding lk by blast
    with mx have "c_str k \<le> c_str m" by simp
    with i(3) i0(3) show "k \<le> m" by (simp add: c_str_key_string)
  qed
  ultimately show ?thesis by (simp add: leaf_max_def)
qed

lemma recovered_item_ok: "a < length pool \<Longrightarrow> item_ok (L (recovered pool a))"
proof -
  have "nul_free k" if "k \<in> set (keys (recovered pool a))" for k
  proof -
    from that obtain i where "i < LEAF_KEYS" "k = keys (recovered pool a) ! i"
      by (auto simp: in_set_conv_nth recovered_props)
    then show ?thesis by (simp add: recovered_props key_string_nul_free nul_free_empty)
  qed
  then show ?thesis by simp
qed

section \<open>Recovery orders the tree\<close>

lemma live_in_keys:
  "k \<in> set (live_keys l) \<Longrightarrow> length (keys l) = LEAF_KEYS \<Longrightarrow> k \<in> set (keys l)"
  by (auto simp: live_keys_set)

lemma link_leaves_sorted:
  assumes "shape node" and "tree_sorted node" and "flat node = ys @ [L (fst r)]"
    and "distinct (map leaf (leaves_of node) @ map (\<lambda>x. leaf (fst x)) rest)"
    and "\<forall>x \<in> set rest. shape (Leaf (fst x)) \<and> item_ok (L (fst x)) \<and> leaf_max x"
    and "leaf_max r"
    and "\<forall>x \<in> set (flat node). \<forall>y \<in> set rest. item_le x (L (fst y))"
    and "sorted_wrt (\<lambda>x y. item_le (L (fst x)) (L (fst y))) rest"
  shows "tree_sorted (link_leaves node r rest)"
  using assms
proof (induction rest arbitrary: node r ys)
  case Nil
  then show ?case by simp
next
  case (Cons nxt rest)
  let ?r = "fst r" and ?m = "snd r" and ?n = "fst nxt"
  let ?p = "parents_of ?r node"
  let ?t = "InnerUpdateAfterSplit (Leaf ?r) (Leaf ?n) ?m ?p"
  from Cons.prems(3) have "L ?r \<in> set (flat node)" by simp
  then have mem: "?r \<in> set (leaves_of node)" by (simp add: L_in_flat)
  from Cons.prems(4) have d: "distinct (map leaf (leaves_of node))" by simp
  have p: "path_in node ?p (Leaf ?r)" using mem d by (rule parents_of_path_in)
  from p Cons.prems(1) have shr: "shape (Leaf ?r)" by (rule path_in_shape)
  from Cons.prems(5) have shn: "shape (Leaf ?n)" and okn: "item_ok (L ?n)" and mxn: "leaf_max nxt"
    by simp_all
  from Cons.prems(6) have mr: "?m \<in> set (live_keys ?r)" and mx: "\<forall>k \<in> set (live_keys ?r). k \<le> ?m"
    by (simp_all add: leaf_max_def)
  from Cons.prems(2) have srt: "sorted_wrt item_le (flat node)"
    and ok: "\<forall>x \<in> set (flat node). item_ok x" by (simp_all add: tree_sorted_def)
  have fp: "flat node = fst (ctx ?p) @ [L ?r] @ snd (ctx ?p)"
    using flat_path [OF p Cons.prems(1)] by simp
  have e: "snd (ctx ?p) = []"
  proof (rule ccontr)
    assume ne: "snd (ctx ?p) \<noteq> []"
    from fp ne have "last (flat node) = last (snd (ctx ?p))" by simp
    with Cons.prems(3) have "L ?r = last (snd (ctx ?p))" by simp
    with ne have "L ?r \<in> set (snd (ctx ?p))" by (metis last_in_set)
    moreover from srt fp have "\<forall>y \<in> set (snd (ctx ?p)). item_le (L ?r) y"
      by (simp add: sorted_wrt_append)
    ultimately have "item_le (L ?r) (L ?r)" by blast
    with mr show False by auto
  qed
  let ?A = "fst (ctx ?p)"
  from fp e have fa: "flat node = ?A @ [L ?r]" by simp
  from Cons.prems(2) have okr: "item_ok (L ?r)" unfolding tree_sorted_def fa by simp
  have nm: "nul_free ?m"
  proof -
    from mr have "?m \<in> set (keys ?r)" using shr by (auto simp: live_keys_set)
    with okr show ?thesis by simp
  qed
  have below: "\<forall>x \<in> set (?A @ [L ?r]). item_le x (L ?n)"
    using Cons.prems(7) fa by simp
  have rn: "item_le (L ?r) (L ?n)" using below by simp
  have H: "sorted_wrt item_le (?A @ [L ?r] @ [S ?m] @ [L ?n])"
  proof -
    have s1: "sorted_wrt item_le (?A @ [L ?r])" using srt fa by simp
    have a: "\<forall>x \<in> set (?A @ [L ?r]). item_le x (S ?m)"
    proof
      fix x assume x: "x \<in> set (?A @ [L ?r])"
      show "item_le x (S ?m)"
      proof (cases "x = L ?r")
        case True
        with mx show ?thesis by simp
      next
        case False
        with x have "x \<in> set ?A" by simp
        with s1 have xr: "item_le x (L ?r)" by (simp add: sorted_wrt_append)
        show ?thesis
        proof (cases x)
          case (L l)
          with xr mr have "\<forall>k \<in> set (live_keys l). k < ?m" by simp
          with L show ?thesis by (simp add: less_imp_le)
        next
          case (S a)
          with xr mr show ?thesis by simp
        qed
      qed
    qed
    have b: "item_le (S ?m) (L ?n)" using rn mr by auto
    have "sorted_wrt item_le ((?A @ [L ?r]) @ [S ?m, L ?n])"
      using s1 a b below by (simp add: sorted_wrt_append)
    then show ?thesis by simp
  qed
  have fl: "flat ?t = ?A @ flat (Leaf ?r) @ [S ?m] @ flat (Leaf ?n) @ snd (ctx ?p)"
    using p Cons.prems(1) by (rule IUAS_flat) (use H e in simp)
  then have fl': "flat ?t = (?A @ [L ?r, S ?m]) @ [L (fst nxt)]" using e by simp
  have sh: "shape ?t" using p Cons.prems(1) shr shn by (rule IUAS_shape)
  have ts: "tree_sorted ?t"
    unfolding tree_sorted_def fl' using H ok fa okn nm by auto
  have "mset (leaves_of ?t) + mset (leaves_of (Leaf ?r))
      = mset (leaves_of node) + mset (leaves_of (Leaf ?r)) + mset (leaves_of (Leaf ?n))"
    using p Cons.prems(1) by (rule IUAS_leaves)
  then have lv: "mset (leaves_of ?t) = mset (leaves_of node) + {#?n#}" by simp
  then have "image_mset leaf (mset (leaves_of ?t)) = image_mset leaf (mset (leaves_of node) + {#?n#})"
    by simp
  then have "mset (map leaf (leaves_of ?t)) = mset (map leaf (leaves_of node) @ [leaf ?n])"
    by simp
  then have "mset (map leaf (leaves_of ?t) @ map (\<lambda>x. leaf (fst x)) rest)
      = mset (map leaf (leaves_of node) @ map (\<lambda>x. leaf (fst x)) (nxt # rest))"
    by simp
  with Cons.prems(4) have dd: "distinct (map leaf (leaves_of ?t) @ map (\<lambda>x. leaf (fst x)) rest)"
    by (metis mset_eq_imp_distinct_iff)
  have r5: "\<forall>x \<in> set rest. shape (Leaf (fst x)) \<and> item_ok (L (fst x)) \<and> leaf_max x"
    using Cons.prems(5) by simp
  have r8: "sorted_wrt (\<lambda>x y. item_le (L (fst x)) (L (fst y))) rest"
    and nr: "\<forall>y \<in> set rest. item_le (L ?n) (L (fst y))"
    using Cons.prems(8) by simp_all
  have r7: "\<forall>x \<in> set (flat ?t). \<forall>y \<in> set rest. item_le x (L (fst y))"
  proof (intro ballI)
    fix x y assume x: "x \<in> set (flat ?t)" and y: "y \<in> set rest"
    from x fl' have "x \<in> set (flat node) \<or> x = S ?m \<or> x = L ?n" using fa by auto
    then show "item_le x (L (fst y))"
    proof (elim disjE)
      assume "x \<in> set (flat node)"
      moreover from y have "y \<in> set (nxt # rest)" by simp
      ultimately show ?thesis using Cons.prems(7) by blast
    next
      assume xm: "x = S ?m"
      have "L ?r \<in> set (flat node)" using fa by simp
      moreover from y have "y \<in> set (nxt # rest)" by simp
      ultimately have "item_le (L ?r) (L (fst y))" using Cons.prems(7) by blast
      with mr xm show ?thesis by auto
    next
      assume "x = L ?n"
      with nr y show ?thesis by simp
    qed
  qed
  have "tree_sorted (link_leaves ?t nxt rest)"
    by (rule Cons.IH [OF sh ts fl' dd r5 mxn r7 r8])
  then show ?case by simp
qed

lemma recovered_leaves_set:
  "x \<in> set (recovered_leaves pool) \<Longrightarrow>
     \<exists>a < length pool. max_key_of pool a = Some (snd x) \<and> fst x = recovered pool a"
proof -
  assume "x \<in> set (recovered_leaves pool)"
  then have "x \<in># mset (recovered_leaves pool)" by simp
  then have "x \<in> set (map (\<lambda>a. (recovered pool a, the (max_key_of pool a)))
          (filter (\<lambda>a. max_key_of pool a \<noteq> None) (rev [0..<length pool])))"
    unfolding recovered_leaves_def sort_by_strcmp_sort_key by simp
  then show ?thesis by auto
qed

lemma recovered_leaves_sorted:
  "sorted (map (\<lambda>x. c_str (snd x)) (recovered_leaves pool))"
  unfolding recovered_leaves_def sort_by_strcmp_sort_key by simp

lemma recovered_leaves_distinct:
  "distinct (map (\<lambda>x. leaf (fst x)) (recovered_leaves pool))"
proof -
  have "distinct (filter (\<lambda>a. max_key_of pool a \<noteq> None) (rev [0..<length pool]))" by simp
  with mset_recovered_addrs [of pool] show ?thesis by (metis mset_eq_imp_distinct_iff)
qed

lemma recovered_leaves_order:
  assumes ok: "pool_ok pool" and pnf: "pool_nul_free pool" and sep: "pool_separated pool"
  shows "sorted_wrt (\<lambda>x y. item_le (L (fst x)) (L (fst y))) (recovered_leaves pool)"
  unfolding sorted_wrt_iff_nth_less
proof (intro allI impI)
  let ?rl = "recovered_leaves pool"
  fix i j assume ij: "i < j" and j: "j < length ?rl"
  let ?x = "?rl ! i" and ?y = "?rl ! j"
  from ij j have xi: "?x \<in> set ?rl" and yj: "?y \<in> set ?rl" by simp_all
  from recovered_leaves_set [OF xi] obtain a where
    a: "a < length pool" "max_key_of pool a = Some (snd ?x)" "fst ?x = recovered pool a" by blast
  from recovered_leaves_set [OF yj] obtain b where
    b: "b < length pool" "max_key_of pool b = Some (snd ?y)" "fst ?y = recovered pool b" by blast
  from recovered_max [OF ok pnf a(1,2)] a(3) have mx: "leaf_max ?x"
    by (simp add: leaf_max_def)
  from recovered_max [OF ok pnf b(1,2)] b(3) have my: "leaf_max ?y"
    by (simp add: leaf_max_def)
  from recovered_leaves_distinct [of pool]
  have dr: "distinct ?rl" and inj: "inj_on (\<lambda>x. leaf (fst x)) (set ?rl)"
    by (simp_all add: distinct_map)
  have "?x \<noteq> ?y" using dr ij j by (simp add: nth_eq_iff_index_eq)
  with inj xi yj have "leaf (fst ?x) \<noteq> leaf (fst ?y)" by (auto dest: inj_onD)
  with a(3) b(3) have ab: "a \<noteq> b" by (auto simp: recovered_props)
  have la: "set (live_keys (fst ?x)) = leaf_keys pool a"
    using recovered_live [OF ok pnf a(1)] a(3) by simp
  have lb: "set (live_keys (fst ?y)) = leaf_keys pool b"
    using recovered_live [OF ok pnf b(1)] b(3) by simp
  have "c_str (snd ?x) \<le> c_str (snd ?y)"
    using recovered_leaves_sorted [of pool] ij j
    by (auto simp: sorted_iff_nth_mono_less dest!: spec [of _ i] spec [of _ j])
  moreover have "nul_free (snd ?x)" "nul_free (snd ?y)"
  proof -
    from mx have "snd ?x \<in> set (live_keys (fst ?x))" by (simp add: leaf_max_def)
    then have "snd ?x \<in> set (keys (fst ?x))"
      by (rule live_in_keys) (simp add: a(3) recovered_props)
    with recovered_item_ok [OF a(1)] a(3) show "nul_free (snd ?x)" by simp
    from my have "snd ?y \<in> set (live_keys (fst ?y))" by (simp add: leaf_max_def)
    then have "snd ?y \<in> set (keys (fst ?y))"
      by (rule live_in_keys) (simp add: b(3) recovered_props)
    with recovered_item_ok [OF b(1)] b(3) show "nul_free (snd ?y)" by simp
  qed
  ultimately have le: "snd ?x \<le> snd ?y" by (simp add: c_str_nul_free)
  from sep a(1) b(1) ab have
    "(\<forall>u \<in> leaf_keys pool a. \<forall>v \<in> leaf_keys pool b. u < v)
     \<or> (\<forall>u \<in> leaf_keys pool a. \<forall>v \<in> leaf_keys pool b. v < u)"
    by (simp add: pool_separated_def)
  then show "item_le (L (fst ?x)) (L (fst ?y))"
  proof
    assume "\<forall>u \<in> leaf_keys pool a. \<forall>v \<in> leaf_keys pool b. u < v"
    with la lb show ?thesis by simp
  next
    assume r: "\<forall>u \<in> leaf_keys pool a. \<forall>v \<in> leaf_keys pool b. v < u"
    from mx my have "snd ?x \<in> leaf_keys pool a" "snd ?y \<in> leaf_keys pool b"
      using la lb by (simp_all add: leaf_max_def)
    with r have "snd ?y < snd ?x" by blast
    with le show ?thesis by simp
  qed
qed

lemma Recover_sorted:
  assumes ok: "pool_ok pool" and pnf: "pool_nul_free pool" and sep: "pool_separated pool"
  shows "case tree_top (Recover pool) of None \<Rightarrow> True | Some t \<Rightarrow> tree_sorted t"
proof (cases "recovered_leaves pool")
  case Nil
  then show ?thesis by (simp add: Recover_eq)
next
  case (Cons r rest)
  have el: "shape (Leaf (fst x)) \<and> item_ok (L (fst x)) \<and> leaf_max x"
    if "x \<in> set (recovered_leaves pool)" for x
  proof -
    from recovered_leaves_set [OF that] obtain a where
      a: "a < length pool" "max_key_of pool a = Some (snd x)" "fst x = recovered pool a" by blast
    from recovered_max [OF ok pnf a(1,2)] a(3) have "leaf_max x" by (simp add: leaf_max_def)
    with a recovered_item_ok [OF a(1)] show ?thesis by (simp add: recovered_props)
  qed
  have so: "sorted_wrt (\<lambda>x y. item_le (L (fst x)) (L (fst y))) (r # rest)"
    using recovered_leaves_order [OF ok pnf sep] Cons by simp
  have "tree_sorted (link_leaves (Leaf (fst r)) r rest)"
  proof (rule link_leaves_sorted [where ys = "[]"])
    show "shape (Leaf (fst r))" using el Cons by simp
    show "tree_sorted (Leaf (fst r))" using el [of r] Cons by (simp add: tree_sorted_def)
    show "flat (Leaf (fst r)) = [] @ [L (fst r)]" by simp
    show "distinct (map leaf (leaves_of (Leaf (fst r))) @ map (\<lambda>x. leaf (fst x)) rest)"
      using recovered_leaves_distinct [of pool] Cons by simp
    show "\<forall>x \<in> set rest. shape (Leaf (fst x)) \<and> item_ok (L (fst x)) \<and> leaf_max x"
    proof
      fix x assume "x \<in> set rest"
      then have "x \<in> set (recovered_leaves pool)" using Cons by simp
      then show "shape (Leaf (fst x)) \<and> item_ok (L (fst x)) \<and> leaf_max x" by (rule el)
    qed
    show "leaf_max r" using el [of r] Cons by simp
    show "\<forall>x \<in> set (flat (Leaf (fst r))). \<forall>y \<in> set rest. item_le x (L (fst y))"
      using so by simp
    show "sorted_wrt (\<lambda>x y. item_le (L (fst x)) (L (fst y))) rest" using so by simp
  qed
  with Cons show ?thesis by (simp add: Recover_eq)
qed

lemma cstring_reopen:
  assumes inv: "engine_inv st" and ci: "cstring_inv st"
  shows "cstring_inv (reopen st)"
proof -
  from inv have ok: "pool_ok (pmpool st)" by (simp add: engine_inv_def)
  from ci have pnf: "pool_nul_free (pmpool st)" by (simp add: cstring_inv_def)
  from inv ci have sep: "pool_separated (pmpool st)" by (rule engine_pool_separated)
  from Recover_sorted [OF ok pnf sep] pnf show ?thesis
    by (simp add: cstring_inv_def reopen_def Recover_eq [of "pmpool st", THEN arg_cong [where f = pmpool]])
qed

lemma cstring_fresh: "cstring_inv fresh"
  by (simp add: cstring_inv_def fresh_def Recover_eq recovered_leaves_def pool_nul_free_def
        sort_by_strcmp_def)

lemma reachable_cstring: "reachable nul_free st \<Longrightarrow> engine_inv st \<and> cstring_inv st"
proof (induction rule: reachable.induct)
  case reachable_fresh
  then show ?case by (simp add: fresh_inv cstring_fresh)
next
  case (reachable_Put st key val)
  then show ?case by (simp add: Put_inv cstring_Put)
next
  case (reachable_Remove st key)
  then show ?case by (simp add: Remove_inv cstring_Remove)
next
  case (reachable_reopen st)
  then show ?case by (simp add: reopen_inv cstring_reopen)
qed

section \<open>The claims\<close>

subsection \<open>C8: the hash\<close>


subsection \<open>C7: the point query\<close>

text \<open>
  C7, as the claim words it, with keys compared byte for byte: the engine holds the key
  \<open>a\<close>; the key \<open>a\\0ws\<close> has the hash of \<open>a\<close> and is equal to it as a C string,
  so \<open>Get\<close> finds the record of \<open>a\<close>, where a bytewise comparison finds none.
\<close>

theorem Get_not_bytewise:
  "(let st = snd (Put None [0x61] [0x78] fresh)
    in Get [0x61, 0, 0x77, 0x73] [] st = Some (OK, [0x78])
       \<and> spec_Get bytes_eq bytes_ge [0x61, 0, 0x77, 0x73] [] st = Some (NOT_FOUND, []))"
  by code_simp

text \<open>
  C7, amended: \<open>LeafSearch\<close> answers null exactly when the tree has no top (in a tree
  of the engine's shape); else it takes at each inner node the first child whose
  separator is greater than or equal to the key, both read as C strings (up to their
  first zero byte), and the last child where there is none. \<open>Get\<close> scans the slots of
  that leaf from the highest index down, compares the keys as C strings where the
  mirrored hash is the hash of the key, and answers not-found where the tree has no top
  or no slot matches.
\<close>

theorem LeafSearch_Get_spec:
  "map_option snd (LeafSearch key st) = spec_LeafSearch cstr_ge key st
   \<and> Get key val st = spec_Get cstr_eq cstr_ge key val st
   \<and> (shaped st \<longrightarrow> (LeafSearch key st = None \<longleftrightarrow> tree_top st = None))"
proof -
  have a: "map_option snd (LeafSearch key st) = spec_LeafSearch cstr_ge key st"
    by (simp add: LeafSearch_def spec_LeafSearch_def descend_spec split: option.splits)
  have b: "Get key val st = spec_Get cstr_eq cstr_ge key val st"
    unfolding Get_def spec_Get_def a [symmetric] spec_slot_def find_slot_spec
    by (cases "LeafSearch key st") (auto split: option.splits)
  have c: "shaped st \<longrightarrow> (LeafSearch key st = None \<longleftrightarrow> tree_top st = None)"
  proof (cases "tree_top st")
    case None
    then show ?thesis by (simp add: LeafSearch_def)
  next
    case (Some node)
    then show ?thesis
      using shape_descend [of node key "[]"] by (simp add: LeafSearch_def shaped_def)
  qed
  from a b c show ?thesis by blast
qed

theorem LeafSearch_Get_spec_witness:
  "shaped (snd (Put None [0x61] [0x78] fresh))
   \<and> LeafSearch [0x61] (snd (Put None [0x61] [0x78] fresh)) \<noteq> None
   \<and> tree_top (snd (Put None [0x61] [0x78] fresh)) \<noteq> None
   \<and> Get [0x61] [] (snd (Put None [0x61] [0x78] fresh))
       = spec_Get cstr_eq cstr_ge [0x61] [] (snd (Put None [0x61] [0x78] fresh))"
proof -
  have s: "shaped (snd (Put None [0x61] [0x78] fresh))"
    by code_simp
  have t: "tree_top (snd (Put None [0x61] [0x78] fresh)) \<noteq> None"
    by code_simp
  from s t LeafSearch_Get_spec [of "[0x61]" "snd (Put None [0x61] [0x78] fresh)" "[]"]
  show ?thesis by simp
qed

subsection \<open>C10: the statuses of get\<close>

text \<open>
  C10, as the claim words it: the get with a buffer of \<open>limit\<close> bytes answers
  \<open>FAILED\<close>, neither \<open>OK\<close> nor \<open>NOT_FOUND\<close>, for a value of two bytes and a limit
  of two.
\<close>

theorem Get_limit_FAILED:
  "Get_limit [0x61] 2 (snd (Put None [0x61] [0x62, 0x62] fresh)) = Some (FAILED, None)"
  by code_simp

text \<open>
  C10, amended: the get into a string answers only \<open>OK\<close> or \<open>NOT_FOUND\<close>; the get
  into a buffer answers \<open>FAILED\<close> exactly when it finds the key in a slot whose value
  size is not below \<open>limit - 1\<close> (in 64-bit arithmetic), and then writes nothing.
\<close>

theorem Get_status:
  "(Get key val st = Some (s, out) \<longrightarrow> s = OK \<or> s = NOT_FOUND)
   \<and> (Get_limit key limit st = Some (FAILED, out') \<longleftrightarrow>
        out' = None \<and>
        (\<exists>path ln slot sl. LeafSearch key st = Some (path, ln)
           \<and> find_slot LEAF_KEYS ln (PearsonHash key) key = Some slot
           \<and> get_ro (pmpool st) (leaf ln) slot = Some sl
           \<and> \<not> vs sl < unat (limit - 1)))"
proof -
  have a: "Get key val st = Some (s, out) \<longrightarrow> s = OK \<or> s = NOT_FOUND"
    by (auto simp: Get_def split: option.splits)
  have b: "Get_limit key limit st = Some (FAILED, out') \<longleftrightarrow>
        out' = None \<and>
        (\<exists>path ln slot sl. LeafSearch key st = Some (path, ln)
           \<and> find_slot LEAF_KEYS ln (PearsonHash key) key = Some slot
           \<and> get_ro (pmpool st) (leaf ln) slot = Some sl
           \<and> \<not> vs sl < unat (limit - 1))"
    by (auto simp: Get_limit_def split: option.splits if_splits)
  from a b show ?thesis by blast
qed

theorem Get_status_witness:
  "Get [0x61] [] (snd (Put None [0x61] [0x62, 0x62] fresh)) = Some (OK, [0x62, 0x62])
   \<and> (OK = OK \<or> OK = NOT_FOUND)"
proof -
  have e: "Get [0x61] [] (snd (Put None [0x61] [0x62, 0x62] fresh)) = Some (OK, [0x62, 0x62])"
    by code_simp
  from e Get_status [of "[0x61]" "[]" "snd (Put None [0x61] [0x62, 0x62] fresh)" OK "[0x62, 0x62]"]
  show ?thesis by blast
qed

subsection \<open>C2: a failing transaction\<close>

text \<open>
  C2 fails on the code. The engine holds the key \<open>a\<close>; the put of \<open>b\<close> fails at the
  allocation of the slot's buffer. It answers \<open>FAILED\<close> and the pool is restored, but
  the mirror of the descriptor already holds the hash and the key of \<open>b\<close>: a get of
  \<open>b\<close>, that answered not-found before, now matches the mirror and reads through the
  null buffer of the empty slot. A remove whose transaction fails leaves by its
  exception, with the mirror of the slot cleared and the slot still filled.
\<close>

theorem failed_Put_changes_mirror:
  "(let st = snd (Put None [0x61] [0x31] fresh);
        r = Put (Some buffer_alloc_fails) [0x62] [0x32] st
    in fst r = FAILED \<and> pmpool (snd r) = pmpool st \<and> tree_top (snd r) \<noteq> tree_top st
       \<and> Get [0x62] [] st = Some (NOT_FOUND, []) \<and> Get [0x62] [] (snd r) = None)
   \<and> (let st = snd (Put None [0x61] [0x31] fresh);
           r = Remove (Some commit_fails) [0x61] st
       in fst r = Inl transaction_error \<and> pmpool (snd r) = pmpool st
          \<and> tree_top (snd r) \<noteq> tree_top st
          \<and> Get [0x61] [] st = Some (OK, [0x31])
          \<and> Get [0x61] [] (snd r) = Some (NOT_FOUND, []))"
  by code_simp

subsection \<open>C5: the mirrors of the descriptors\<close>




subsection \<open>C9: remove is idempotent\<close>



end
